theory Spec2Isabelle
  imports Main "HOL-Library.Finite_Map"
begin

section \<open>The trigger registry (openshift\_saas\_deploy\_trigger\_base.py)\<close>

text \<open>
  \<^verbatim>\<open>_register_trigger(name, already_triggered)\<close> runs its whole body under the module
  lock \<^verbatim>\<open>_trigger_lock\<close>, so every execution of a pass, however its workers interleave,
  is a sequence of atomic calls. The registry is the Python set
  \<^verbatim>\<open>already_triggered\<close>, created empty by \<^verbatim>\<open>run\<close>; the call returns
  \<^verbatim>\<open>to_trigger\<close> and the updated set.
\<close>

definition register_trigger :: "string \<Rightarrow> string set \<Rightarrow> bool \<times> string set" where
  "register_trigger name already_triggered =
     (if name \<notin> already_triggered
      then (True, insert name already_triggered)
      else (False, already_triggered))"

text \<open>A sequence of calls on one registry: the answers in call order and the last registry.\<close>

fun register_all :: "string list \<Rightarrow> string set \<Rightarrow> bool list \<times> string set" where
  "register_all [] reg = ([], reg)"
| "register_all (name # names) reg =
     (let (b, reg') = register_trigger name reg;
          (bs, reg'') = register_all names reg'
      in (b # bs, reg''))"

section \<open>Trigger dispatch (openshift\_saas\_deploy\_trigger\_base.py)\<close>

subsection \<open>Data\<close>

text \<open>
  A trigger spec is the dict made by saasherder; the code reads \<^verbatim>\<open>saas_file_name\<close>,
  \<^verbatim>\<open>env_name\<close> and \<^verbatim>\<open>pipelines_provider\<close>. The provider dict is a tagged union on
  its key \<^verbatim>\<open>provider\<close>: for \<^verbatim>\<open>Providers.JENKINS\<close> the code reads
  \<^verbatim>\<open>instance.name\<close>; for \<^verbatim>\<open>Providers.TEKTON\<close> it reads \<^verbatim>\<open>namespace.name\<close>,
  \<^verbatim>\<open>namespace.cluster.name\<close> and \<^verbatim>\<open>namespace.cluster.consoleUrl\<close> (in this
  order below); any other provider name takes the \<^verbatim>\<open>else\<close> branch of \<^verbatim>\<open>trigger\<close>.
  The keys of the spec that this module does not read, and hands to
  \<^verbatim>\<open>update_state\<close> with the spec, are \<open>spec_other\<close>.
\<close>

datatype pipelines_provider =
    Jenkins string
  | Tekton string string string
  | OtherProvider string

record trigger_spec =
  spec_saas_file_name :: string
  spec_env_name :: string
  spec_pipelines_provider :: pipelines_provider
  spec_other :: "(string \<times> string) list"

text \<open>The PipelineRun body built by \<^verbatim>\<open>_construct_tekton_trigger_resource\<close> and the
  \<^verbatim>\<open>OpenshiftResource\<close> wrapped around it.\<close>

record pipeline_run =
  apiVersion :: string
  kind :: string
  metadata_name :: string
  pipelineRef_name :: string
  params :: "(string \<times> string) list"

record openshift_resource =
  resource_body :: pipeline_run
  integration :: string
  integration_version :: string
  error_details :: string

text \<open>
  The calls a pass makes on its collaborators, in the order it makes them: the log, the job
  queue (\<^verbatim>\<open>jenkins.trigger_job\<close>), the cluster apply (\<^verbatim>\<open>osb.create\<close>, which receives
  the dry-run flag) and the persistent trigger state (\<^verbatim>\<open>saasherder.update_state\<close>).
\<close>

datatype event =
    LogInfo "string list"
  | LogError string
  | GetDiff string bool
  | TriggerJob string string
  | OsbCreate bool string string string openshift_resource
  | UpdateState string trigger_spec

text \<open>The exceptions the models raise. \<open>Raised details\<close> is an exception \<open>e\<close> of a
  collaborator with \<^verbatim>\<open>str(e) = details\<close> that nothing catches. \<open>DanglingReference\<close> is the
  error of the store model below for an address outside the store, which no Python value
  is.\<close>

datatype py_error =
    KeyError string
  | AttributeError
  | TypeError
  | RecursionError
  | DanglingReference
  | SystemExit
  | Raised string

text \<open>The configuration read by \<^verbatim>\<open>setup\<close>: the fields of a saas file the code reads.\<close>

record saas_target =
  target_disable :: bool
  target_name :: string

record resource_template =
  rt_targets :: "saas_target list"

record saas_file =
  sf_name :: string
  sf_resourceTemplates :: "resource_template list"

text \<open>
  What lives outside this module is a parameter of the pass: the configuration query, the
  shard test, saasherder's \<^verbatim>\<open>get_diff\<close> (of the saas files saasherder was built from), the
  job name builder (with the settings applied), the map of Jenkins clients, \<^verbatim>\<open>osb.create\<close>,
  saasherder's \<^verbatim>\<open>update_state\<close>, the constant \<^verbatim>\<open>UNIQUE_SAAS_FILE_ENV_COMBO_LEN\<close>, the
  settings dict and the clock. An adapter call (\<^verbatim>\<open>jenkins.trigger_job\<close>,
  \<^verbatim>\<open>osb.create\<close>, \<^verbatim>\<open>update_state\<close>) answers \<open>None\<close> when it returns and
  \<open>Some details\<close> when it raises an exception \<open>e\<close> with \<^verbatim>\<open>str(e) = details\<close>; its
  answer may depend on every call made before it. \<^verbatim>\<open>jenkins_map\<close> and \<^verbatim>\<open>settings\<close>
  are dicts, and a lookup of a key they do not have raises \<^verbatim>\<open>KeyError\<close>. The clock gives
  the \<open>n\<close>-th reading of \<^verbatim>\<open>utcnow()\<close>, already formatted with \<^verbatim>\<open>'%Y%m%d%H%M'\<close>.
\<close>

record collaborators =
  get_saas_files :: "bool \<Rightarrow> bool \<Rightarrow> saas_file list"
  is_in_shard :: "string \<Rightarrow> bool"
  get_diff :: "saas_file list \<Rightarrow> string \<Rightarrow> bool \<Rightarrow> trigger_spec list \<times> bool"
  get_openshift_saas_deploy_job_name :: "string \<Rightarrow> string \<Rightarrow> string"
  jenkins_map :: "string \<rightharpoonup> (event list \<Rightarrow> string \<Rightarrow> string option)"
  osb_create ::
    "event list \<Rightarrow> bool \<Rightarrow> string \<Rightarrow> string \<Rightarrow> string \<Rightarrow> openshift_resource \<Rightarrow> string option"
  update_state :: "event list \<Rightarrow> string \<Rightarrow> trigger_spec \<Rightarrow> string option"
  UNIQUE_SAAS_FILE_ENV_COMBO_LEN :: nat
  settings :: "string \<rightharpoonup> string"
  utcnow :: "nat \<Rightarrow> string"

text \<open>The state of a pass: the registry, the calls made so far, the clock readings taken.\<close>

record pass_state =
  already_triggered :: "string set"
  events :: "event list"
  clock_reads :: nat

definition emit :: "event \<Rightarrow> pass_state \<Rightarrow> pass_state" where
  "emit e st = st\<lparr>events := events st @ [e]\<rparr>"

subsection \<open>Strings\<close>

text \<open>
  A string is the list of its characters, a character a code point below 256, so that
  slicing and length count what Python's \<^verbatim>\<open>str\<close> counts. On these \<^verbatim>\<open>str.lower()\<close>
  works character by character: the upper-case letters are A to Z (65 to 90) and
  A-grave to Thorn (192 to 222) without the multiplication sign (215), their
  lower-case letters lie 32 above them, and every other character stays.
\<close>

definition lower_char :: "char \<Rightarrow> char" where
  "lower_char c =
     (let k = (of_char c :: nat)
      in if (65 \<le> k \<and> k \<le> 90) \<or> (192 \<le> k \<and> k \<le> 222 \<and> k \<noteq> 215) then char_of (k + 32)
         else c)"

definition lower :: "string \<Rightarrow> string" where
  "lower s = map lower_char s"

subsection \<open>\<^verbatim>\<open>_construct_tekton_trigger_resource\<close>\<close>

text \<open>Returns the resource and \<^verbatim>\<open>long_name\<close>; \<open>ts\<close> is the clock reading. The body
  reads \<^verbatim>\<open>settings['saasDeployJobTemplate']\<close>, which raises when the key is missing.\<close>

definition construct_tekton_trigger_resource ::
  "collaborators \<Rightarrow> string \<Rightarrow> string \<Rightarrow> string \<Rightarrow> string \<Rightarrow> string \<Rightarrow> string \<Rightarrow> string
     \<Rightarrow> py_error + openshift_resource \<times> string" where
  "construct_tekton_trigger_resource C saas_file_name env_name tkn_cluster_console_url
       tkn_namespace_name integ integ_version ts =
     (let long_name = lower (saas_file_name @ ''-'' @ env_name);
          name = take (UNIQUE_SAAS_FILE_ENV_COMBO_LEN C) long_name @ ''-'' @ ts
      in case settings C ''saasDeployJobTemplate'' of
           None \<Rightarrow> Inl (KeyError ''saasDeployJobTemplate'')
         | Some template \<Rightarrow>
             (let b = \<lparr>apiVersion = ''tekton.dev/v1beta1'',
                       kind = ''PipelineRun'',
                       metadata_name = name,
                       pipelineRef_name = template,
                       params = [(''saas_file_name'', saas_file_name),
                                 (''env_name'', env_name),
                                 (''tkn_cluster_console_url'', tkn_cluster_console_url),
                                 (''tkn_namespace_name'', tkn_namespace_name)]\<rparr>
              in Inr (\<lparr>resource_body = b, integration = integ,
                        integration_version = integ_version, error_details = name\<rparr>,
                      long_name)))"

subsection \<open>\<^verbatim>\<open>_trigger_jenkins\<close> and \<^verbatim>\<open>_trigger_tekton\<close>\<close>

text \<open>The last statement of both functions:
  \<^verbatim>\<open>if not error and not dry_run: saasherder.update_state(trigger_type, spec)\<close>,
  then \<^verbatim>\<open>return error\<close>. The call is in no \<^verbatim>\<open>try\<close> block: what it raises leaves the
  function.\<close>

definition finish_trigger ::
  "collaborators \<Rightarrow> bool \<Rightarrow> bool \<Rightarrow> string \<Rightarrow> trigger_spec \<Rightarrow> pass_state
     \<Rightarrow> (py_error + bool) \<times> pass_state" where
  "finish_trigger C error dry_run trigger_type spec st =
     (if \<not> error \<and> \<not> dry_run
      then (let st' = emit (UpdateState trigger_type spec) st
            in case update_state C (events st) trigger_type spec of
                 None \<Rightarrow> (Inr error, st')
               | Some details \<Rightarrow> (Inl (Raised details), st'))
      else (Inr error, st))"

text \<open>The provider fields that the two functions read from the spec are their arguments
  here; \<open>trigger\<close> below takes them from the spec.\<close>

definition trigger_jenkins ::
  "collaborators \<Rightarrow> trigger_spec \<Rightarrow> string \<Rightarrow> bool \<Rightarrow> string \<Rightarrow> pass_state
     \<Rightarrow> (py_error + bool) \<times> pass_state" where
  "trigger_jenkins C spec instance_name dry_run trigger_type st =
     (let saas_file_name = spec_saas_file_name spec;
          env_name = spec_env_name spec;
          job_name = get_openshift_saas_deploy_job_name C saas_file_name env_name;
          (to_trigger, reg) = register_trigger job_name (already_triggered st);
          st1 = st\<lparr>already_triggered := reg\<rparr>
      in if to_trigger then
           (let st2 = emit (LogInfo [''trigger_job'', instance_name, job_name]) st1
            in if \<not> dry_run then
                 (case jenkins_map C instance_name of
                    None \<Rightarrow> (Inl (KeyError instance_name), st2)
                  | Some jenkins \<Rightarrow>
                      (let st3 = emit (TriggerJob instance_name job_name) st2
                       in case jenkins (events st2) job_name of
                            None \<Rightarrow> finish_trigger C False dry_run trigger_type spec st3
                          | Some details \<Rightarrow>
                              finish_trigger C True dry_run trigger_type spec
                                (emit (LogError (''could not trigger job '' @ job_name @ '' ''
                                         @ ''in '' @ instance_name @ ''. details: '' @ details))
                                   st3)))
               else finish_trigger C False dry_run trigger_type spec st2)
         else finish_trigger C False dry_run trigger_type spec st1)"

definition trigger_tekton ::
  "collaborators \<Rightarrow> trigger_spec \<Rightarrow> string \<Rightarrow> string \<Rightarrow> string \<Rightarrow> bool \<Rightarrow> string \<Rightarrow> string
     \<Rightarrow> string \<Rightarrow> pass_state \<Rightarrow> (py_error + bool) \<times> pass_state" where
  "trigger_tekton C spec tkn_namespace_name tkn_cluster_name tkn_cluster_console_url
       dry_run trigger_type integ integ_version st =
     (let saas_file_name = spec_saas_file_name spec;
          env_name = spec_env_name spec;
          ts = utcnow C (clock_reads st);
          st0 = st\<lparr>clock_reads := Suc (clock_reads st)\<rparr>
      in case construct_tekton_trigger_resource C saas_file_name env_name
                tkn_cluster_console_url tkn_namespace_name integ integ_version ts of
           Inl e \<Rightarrow> (Inl e, st0)
         | Inr (tkn_trigger_resource, tkn_name) \<Rightarrow>
             (let (to_trigger, reg) = register_trigger tkn_name (already_triggered st0);
                  st1 = st0\<lparr>already_triggered := reg\<rparr>
              in if to_trigger then
                   (let st2 = emit (OsbCreate dry_run tkn_cluster_name tkn_namespace_name
                                      (kind (resource_body tkn_trigger_resource))
                                      tkn_trigger_resource) st1
                    in case osb_create C (events st1) dry_run tkn_cluster_name
                              tkn_namespace_name (kind (resource_body tkn_trigger_resource))
                              tkn_trigger_resource of
                         None \<Rightarrow> finish_trigger C False dry_run trigger_type spec st2
                       | Some details \<Rightarrow>
                           finish_trigger C True dry_run trigger_type spec
                             (emit (LogError (''could not trigger pipeline '' @ tkn_name @ '' ''
                                      @ ''in '' @ tkn_cluster_name @ ''/'' @ tkn_namespace_name
                                      @ ''. '' @ ''details: '' @ details))
                                st2))
                 else finish_trigger C False dry_run trigger_type spec st1))"

subsection \<open>\<^verbatim>\<open>trigger\<close>\<close>

definition trigger ::
  "collaborators \<Rightarrow> bool \<Rightarrow> string \<Rightarrow> string \<Rightarrow> string \<Rightarrow> trigger_spec \<Rightarrow> pass_state
     \<Rightarrow> (py_error + bool) \<times> pass_state" where
  "trigger C dry_run trigger_type integ integ_version spec st =
     (case spec_pipelines_provider spec of
        Jenkins instance_name \<Rightarrow>
          trigger_jenkins C spec instance_name dry_run trigger_type st
      | Tekton tkn_namespace_name tkn_cluster_name tkn_cluster_console_url \<Rightarrow>
          trigger_tekton C spec tkn_namespace_name tkn_cluster_name tkn_cluster_console_url
            dry_run trigger_type integ integ_version st
      | OtherProvider p \<Rightarrow>
          (Inr True,
           emit (LogError (''['' @ spec_saas_file_name spec @ ''] unsupported provider: '' @ p))
             st))"

subsection \<open>\<^verbatim>\<open>setup\<close> and \<^verbatim>\<open>run\<close>\<close>

text \<open>
  \<^verbatim>\<open>threaded.run(trigger, trigger_specs, ...)\<close> maps \<^verbatim>\<open>trigger\<close> over the specs and
  returns the answers in the order of the specs. The workers share only the registry,
  which they touch under the lock, so a pass is modelled as the specs handled one after the
  other; an exception that \<^verbatim>\<open>trigger\<close> does not catch leaves the map.
\<close>

fun threaded_run ::
  "('a \<Rightarrow> pass_state \<Rightarrow> (py_error + bool) \<times> pass_state) \<Rightarrow> 'a list \<Rightarrow> pass_state
     \<Rightarrow> (py_error + bool list) \<times> pass_state" where
  "threaded_run f [] st = (Inr [], st)"
| "threaded_run f (x # xs) st =
     (case f x st of
        (Inl e, st') \<Rightarrow> (Inl e, st')
      | (Inr b, st') \<Rightarrow>
          (case threaded_run f xs st' of
             (Inl e, st'') \<Rightarrow> (Inl e, st'')
           | (Inr bs, st'') \<Rightarrow> (Inr (b # bs), st'')))"



definition initial_state :: pass_state where
  "initial_state = \<lparr>already_triggered = {}, events = [], clock_reads = 0\<rparr>"




subsection \<open>Reading the calls of a pass\<close>

text \<open>The state updates persisted, the triggers dispatched (job submissions and resource
  applies) and the errors logged among a list of calls.\<close>

definition update_state_calls :: "event list \<Rightarrow> (string \<times> trigger_spec) list" where
  "update_state_calls evs =
     concat (map (\<lambda>e. case e of UpdateState t s \<Rightarrow> [(t, s)] | _ \<Rightarrow> []) evs)"

definition dispatch_calls :: "event list \<Rightarrow> event list" where
  "dispatch_calls evs =
     filter (\<lambda>e. case e of TriggerJob _ _ \<Rightarrow> True | OsbCreate _ _ _ _ _ \<Rightarrow> True | _ \<Rightarrow> False) evs"

definition error_logs :: "event list \<Rightarrow> string list" where
  "error_logs evs = concat (map (\<lambda>e. case e of LogError m \<Rightarrow> [m] | _ \<Rightarrow> []) evs)"

text \<open>What one call of a trigger function adds to the calls made so far.\<close>

definition new_events :: "pass_state \<Rightarrow> pass_state \<Rightarrow> event list" where
  "new_events st st' = drop (length (events st)) (events st')"


subsection \<open>A sample pass\<close>

text \<open>Two specs of one saas file and environment on the job queue (two resource
  templates), a cluster-apply spec whose cluster refuses the resource, and a spec with a
  provider the dispatcher does not know.\<close>

definition example_specs :: "trigger_spec list" where
  "example_specs =
     [\<lparr>spec_saas_file_name = ''app'', spec_env_name = ''prod'',
       spec_pipelines_provider = Jenkins ''ci-int'', spec_other = [(''rt'', ''web'')]\<rparr>,
      \<lparr>spec_saas_file_name = ''app'', spec_env_name = ''prod'',
       spec_pipelines_provider = Jenkins ''ci-int'', spec_other = [(''rt'', ''db'')]\<rparr>,
      \<lparr>spec_saas_file_name = ''App'', spec_env_name = ''Stage'',
       spec_pipelines_provider = Tekton ''pipelines'' ''broken'' ''https://console'',
       spec_other = []\<rparr>,
      \<lparr>spec_saas_file_name = ''app'', spec_env_name = ''int'',
       spec_pipelines_provider = OtherProvider ''github'', spec_other = []\<rparr>]"

definition example_collaborators :: collaborators where
  "example_collaborators =
     \<lparr>get_saas_files = (\<lambda>v1 v2.
         [\<lparr>sf_name = ''app'',
           sf_resourceTemplates =
             [\<lparr>rt_targets = [\<lparr>target_disable = False, target_name = ''t1''\<rparr>,
                             \<lparr>target_disable = True, target_name = ''t2''\<rparr>]\<rparr>]\<rparr>]),
      is_in_shard = (\<lambda>name. True),
      get_diff = (\<lambda>saas_files trigger_type dry_run. (example_specs, False)),
      get_openshift_saas_deploy_job_name = (\<lambda>s e. ''openshift-saas-deploy-'' @ s @ ''-'' @ e),
      jenkins_map = [''ci-int'' \<mapsto> (\<lambda>evs job. None)],
      osb_create = (\<lambda>evs dry_run cluster namespace k r.
                      if cluster = ''broken'' then Some ''timeout'' else None),
      update_state = (\<lambda>evs trigger_type spec. None),
      UNIQUE_SAAS_FILE_ENV_COMBO_LEN = 50,
      settings = [''saasDeployJobTemplate'' \<mapsto> ''openshift-saas-deploy''],
      utcnow = (\<lambda>n. if n = 0 then ''202101010000'' else ''202101010001'')\<rparr>"

section \<open>Deployment state and approvals (saas\_file\_owners.py)\<close>

subsection \<open>Data\<close>

text \<open>
  Parsed JSON, for the merged \<^verbatim>\<open>parameters\<close> of a target, as \<^verbatim>\<open>json.loads\<close> gives it. A
  number is an \<^verbatim>\<open>int\<close> or a \<^verbatim>\<open>float\<close>. A finite float is the number it stands for (every
  finite double is a rational); \<^verbatim>\<open>Infinity\<close> and \<^verbatim>\<open>-Infinity\<close> are \<open>JInf\<close> with their
  sign (true for the positive one), and a NaN carries the object it is: the parser hands
  out one NaN object for every \<^verbatim>\<open>NaN\<close> it reads. A dict is a finite map, since its keys
  are unique and its equality does not look at the insertion order.
\<close>

datatype json =
    JNull
  | JBool bool
  | JInt int
  | JFloat rat
  | JInf bool
  | JNaN nat
  | JStr string
  | JList "json list"
  | JObj "(string, json) fmap"

text \<open>
  Python's \<^verbatim>\<open>==\<close> on these values, as the containers apply it to their items (the same
  object, or \<^verbatim>\<open>==\<close>). \<^verbatim>\<open>bool\<close> is a subclass of \<^verbatim>\<open>int\<close>, and \<^verbatim>\<open>int\<close> and \<^verbatim>\<open>float\<close>
  compare by value, exactly: \<^verbatim>\<open>True == 1 == 1.0\<close>; \<open>number\<close> is that value. An infinity
  is equal to the infinity of its sign and a NaN to nothing but the same object. Lists are
  equal when they have the same length and equal items, dicts when they have the same keys
  with equal values.
\<close>

fun number :: "json \<Rightarrow> rat option" where
  "number (JBool b) = Some (if b then 1 else 0)"
| "number (JInt i) = Some (of_int i)"
| "number (JFloat q) = Some q"
| "number x = None"

primrec json_eq :: "json \<Rightarrow> json \<Rightarrow> bool" where
  "json_eq JNull y = (y = JNull)"
| "json_eq (JBool b) y = (number y = number (JBool b))"
| "json_eq (JInt i) y = (number y = number (JInt i))"
| "json_eq (JFloat q) y = (number y = number (JFloat q))"
| "json_eq (JInf s) y = (y = JInf s)"
| "json_eq (JNaN a) y = (y = JNaN a)"
| "json_eq (JStr s) y = (y = JStr s)"
| "json_eq (JList xs) y =
     (case y of JList ys \<Rightarrow> list_all2 (\<lambda>p w. p w) (map json_eq xs) ys | _ \<Rightarrow> False)"
| "json_eq (JObj a) y =
     (case y of JObj b \<Rightarrow> fmrel (\<lambda>p w. p w) (fmmap json_eq a) b | _ \<Rightarrow> False)"

text \<open>
  An entry of the state is the dict appended by \<^verbatim>\<open>collect_state\<close>: eleven keys, one of
  them the nested dict \<^verbatim>\<open>saas_file_definitions\<close>. \<^verbatim>\<open>delete\<close> is
  \<^verbatim>\<open>target.get('delete')\<close>, so it may be \<^verbatim>\<open>None\<close>. The current state is read from
  the baseline file, and \<^verbatim>\<open>valid_diff\<close> pops a twelfth key \<^verbatim>\<open>disable\<close> with a
  default: \<open>disable\<close> is \<open>None\<close> for an entry without the key (as \<^verbatim>\<open>collect_state\<close>
  builds it), \<open>Some None\<close> for the key with a null and \<open>Some (Some b)\<close> for the key
  with a boolean.
\<close>

record definitions =
  managed_resource_types :: "string list"
  image_patterns :: "string list"
  use_channel_in_image_tag :: bool

record state_entry =
  saas_file_path :: string
  saas_file_name :: string
  resource_template_name :: string
  cluster :: string
  namespace :: string
  environment :: string
  url :: string
  ref :: string
  parameters :: "(string, json) fmap"
  saas_file_definitions :: definitions
  delete :: "bool option"
  disable :: "bool option option"

subsection \<open>The diffs of \<^verbatim>\<open>run\<close>\<close>

text \<open>Python's \<^verbatim>\<open>x in xs\<close> on a list whose items are strings, or tuples and dicts of
  strings, where \<^verbatim>\<open>==\<close> is the equality of the values: the first element equal to \<open>x\<close>
  decides.\<close>

fun py_in :: "'a \<Rightarrow> 'a list \<Rightarrow> bool" where
  "py_in x [] = False"
| "py_in x (y # ys) = (if y = x then True else py_in x ys)"

text \<open>
  \<^verbatim>\<open>==\<close> on two entries, which are dicts: the same keys (\<^verbatim>\<open>disable\<close> is there or not on
  both sides) with equal values. The values are strings, lists of strings, booleans or
  \<^verbatim>\<open>None\<close>, but for the parameters, which are parsed JSON.
\<close>

definition entry_eq :: "state_entry \<Rightarrow> state_entry \<Rightarrow> bool" where
  "entry_eq c d =
     (saas_file_path c = saas_file_path d
      \<and> saas_file_name c = saas_file_name d
      \<and> resource_template_name c = resource_template_name d
      \<and> cluster c = cluster d
      \<and> namespace c = namespace d
      \<and> environment c = environment d
      \<and> url c = url d
      \<and> ref c = ref d
      \<and> json_eq (JObj (parameters c)) (JObj (parameters d))
      \<and> saas_file_definitions c = saas_file_definitions d
      \<and> delete c = delete d
      \<and> disable c = disable d)"

text \<open>\<^verbatim>\<open>s in current_state\<close> on a list of entries.\<close>

fun entry_in :: "state_entry \<Rightarrow> state_entry list \<Rightarrow> bool" where
  "entry_in x [] = False"
| "entry_in x (y # ys) = (if entry_eq y x then True else entry_in x ys)"

text \<open>\<^verbatim>\<open>diffs = [s for s in desired_state if s not in current_state]\<close> in \<^verbatim>\<open>run\<close>.\<close>

fun compute_diffs :: "state_entry list \<Rightarrow> state_entry list \<Rightarrow> state_entry list" where
  "compute_diffs current_state [] = []"
| "compute_diffs current_state (s # desired_state) =
     (if \<not> entry_in s current_state then s # compute_diffs current_state desired_state
      else compute_diffs current_state desired_state)"

subsection \<open>\<^verbatim>\<open>collect_compare_diffs\<close>\<close>

text \<open>\<^verbatim>\<open>c.endswith(p)\<close>.\<close>

definition endswith :: "string \<Rightarrow> string \<Rightarrow> bool" where
  "endswith c p = (length p \<le> length c \<and> drop (length c - length p) c = p)"

text \<open>The inner loop over the current state for one desired entry \<open>d\<close>, with its chain
  of \<^verbatim>\<open>continue\<close>s, and the outer loop over the desired state.\<close>

fun compare_with_current ::
  "state_entry \<Rightarrow> state_entry list \<Rightarrow> string set \<Rightarrow> string set" where
  "compare_with_current d [] compare_diffs = compare_diffs"
| "compare_with_current d (c # current_state) compare_diffs =
     (if saas_file_name d \<noteq> saas_file_name c then
        compare_with_current d current_state compare_diffs
      else if resource_template_name d \<noteq> resource_template_name c then
        compare_with_current d current_state compare_diffs
      else if environment d \<noteq> environment c then
        compare_with_current d current_state compare_diffs
      else if cluster d \<noteq> cluster c then
        compare_with_current d current_state compare_diffs
      else if namespace d \<noteq> namespace c then
        compare_with_current d current_state compare_diffs
      else if ref d = ref c then
        compare_with_current d current_state compare_diffs
      else
        compare_with_current d current_state
          (insert (url d @ ''/compare/'' @ ref c @ ''...'' @ ref d) compare_diffs))"

fun compare_desired ::
  "state_entry list \<Rightarrow> state_entry list \<Rightarrow> string list \<Rightarrow> string set \<Rightarrow> string set" where
  "compare_desired current_state [] changed_paths compare_diffs = compare_diffs"
| "compare_desired current_state (d # desired_state) changed_paths compare_diffs =
     (let changed_path_matches = filter (\<lambda>c. endswith c (saas_file_path d)) changed_paths
      in if changed_path_matches = [] then
           compare_desired current_state desired_state changed_paths compare_diffs
         else
           compare_desired current_state desired_state changed_paths
             (compare_with_current d current_state compare_diffs))"

definition collect_compare_diffs ::
  "state_entry list \<Rightarrow> state_entry list \<Rightarrow> string list \<Rightarrow> string set" where
  "collect_compare_diffs current_state desired_state changed_paths =
     compare_desired current_state desired_state changed_paths {}"

subsection \<open>\<^verbatim>\<open>valid_diff\<close>\<close>

text \<open>
  What is left of an entry after the four pops of \<^verbatim>\<open>valid_diff\<close>
  (\<^verbatim>\<open>ref\<close>, \<^verbatim>\<open>parameters\<close>, \<^verbatim>\<open>use_channel_in_image_tag\<close> of the nested dict, and
  \<^verbatim>\<open>disable\<close> if present): a dict with nine keys, one of them a nested dict with two.
  Here the states are values, so the deep copies are the states themselves; the store in
  which the copies are objects of their own is the subject of the last section.
\<close>

record popped_definitions =
  popped_managed_resource_types :: "string list"
  popped_image_patterns :: "string list"

record popped_entry =
  popped_saas_file_path :: string
  popped_saas_file_name :: string
  popped_resource_template_name :: string
  popped_cluster :: string
  popped_namespace :: string
  popped_environment :: string
  popped_url :: string
  popped_saas_file_definitions :: popped_definitions
  popped_delete :: "bool option"

definition pop_definitions :: "definitions \<Rightarrow> popped_definitions" where
  "pop_definitions sfd =
     \<lparr>popped_managed_resource_types = managed_resource_types sfd,
      popped_image_patterns = image_patterns sfd\<rparr>"

definition pop_entry :: "state_entry \<Rightarrow> popped_entry" where
  "pop_entry c =
     \<lparr>popped_saas_file_path = saas_file_path c,
      popped_saas_file_name = saas_file_name c,
      popped_resource_template_name = resource_template_name c,
      popped_cluster = cluster c,
      popped_namespace = namespace c,
      popped_environment = environment c,
      popped_url = url c,
      popped_saas_file_definitions = pop_definitions (saas_file_definitions c),
      popped_delete = delete c\<rparr>"

definition valid_diff :: "state_entry list \<Rightarrow> state_entry list \<Rightarrow> bool" where
  "valid_diff current_state desired_state =
     (let current_state_copy = map pop_entry current_state;
          desired_state_copy = map pop_entry desired_state
      in current_state_copy = desired_state_copy)"

text \<open>Two entries agree on everything that \<^verbatim>\<open>valid_diff\<close> does not pop.\<close>

definition same_structure :: "state_entry \<Rightarrow> state_entry \<Rightarrow> bool" where
  "same_structure c d =
     (saas_file_path c = saas_file_path d
      \<and> saas_file_name c = saas_file_name d
      \<and> resource_template_name c = resource_template_name d
      \<and> cluster c = cluster d
      \<and> namespace c = namespace d
      \<and> environment c = environment d
      \<and> url c = url d
      \<and> managed_resource_types (saas_file_definitions c)
          = managed_resource_types (saas_file_definitions d)
      \<and> image_patterns (saas_file_definitions c) = image_patterns (saas_file_definitions d)
      \<and> delete c = delete d)"

subsection \<open>\<^verbatim>\<open>check_if_lgtm\<close>\<close>

text \<open>A merge request comment; the creation time is of any linearly ordered type (GitLab
  gives a time stamp string).\<close>

record 't comment =
  username :: string
  body :: string
  created_at :: 't

text \<open>\<^verbatim>\<open>s.split('\n')\<close>: the pieces between the separators, at least one piece.\<close>

fun split_on :: "char \<Rightarrow> string \<Rightarrow> string list" where
  "split_on sep [] = [[]]"
| "split_on sep (c # cs) =
     (if c = sep then [] # split_on sep cs
      else (case split_on sep cs of
              [] \<Rightarrow> [[c]]
            | w # ws \<Rightarrow> (c # w) # ws))"

text \<open>The identifier that \<^verbatim>\<open>collect_owners\<close> records for a user: the
  \<^verbatim>\<open>org_username\<close>, with one \<^verbatim>\<open>@\<close> in front of it when the user is tagged on merge
  requests.\<close>

definition owner_identifier :: "string \<Rightarrow> bool \<Rightarrow> string" where
  "owner_identifier org_username tag_on_merge_requests =
     (if tag_on_merge_requests then ''@'' @ org_username else org_username)"

text \<open>\<^verbatim>\<open>u.replace('@', '')\<close>.\<close>

definition replace_at :: "string \<Rightarrow> string" where
  "replace_at u = filter (\<lambda>c. c \<noteq> CHR ''@'') u"

record lgtm_state =
  approved :: bool
  hold :: bool
  lgtm_comment :: bool

text \<open>The four \<^verbatim>\<open>if\<close> statements run on one line of a comment, one after the other.\<close>

definition lgtm_line :: "string \<Rightarrow> lgtm_state \<Rightarrow> lgtm_state" where
  "lgtm_line line s0 =
     (let s1 = (if line = ''/lgtm'' then s0\<lparr>lgtm_comment := True, approved := True\<rparr> else s0);
          s2 = (if line = ''/lgtm cancel'' then s1\<lparr>lgtm_comment := False, approved := False\<rparr>
                else s1);
          s3 = (if line = ''/hold'' then s2\<lparr>hold := True, approved := False\<rparr> else s2);
          s4 = (if line = ''/hold cancel''
                then (let s = s3\<lparr>hold := False\<rparr>
                      in if lgtm_comment s then s\<lparr>approved := True\<rparr> else s)
                else s3)
      in s4)"

fun lgtm_comments :: "string list \<Rightarrow> 't comment list \<Rightarrow> lgtm_state \<Rightarrow> lgtm_state" where
  "lgtm_comments owners [] s = s"
| "lgtm_comments owners (comment # sorted_comments) s =
     (let commenter = username comment
      in if \<not> py_in commenter owners then lgtm_comments owners sorted_comments s
         else lgtm_comments owners sorted_comments
                (fold lgtm_line (split_on (CHR 0x0A) (body comment)) s))"

text \<open>\<^verbatim>\<open>owners\<close> is \<^verbatim>\<open>owners.get(saas_file_name)\<close> at the call, so it may be
  \<^verbatim>\<open>None\<close>; \<^verbatim>\<open>sorted\<close> is stable, as \<open>sort_key\<close> is.\<close>

definition check_if_lgtm ::
  "string list option \<Rightarrow> ('t::linorder) comment list \<Rightarrow> bool \<times> bool" where
  "check_if_lgtm owners comments =
     (case owners of
        None \<Rightarrow> (False, False)
      | Some os \<Rightarrow>
          if os = [] then (False, False)
          else
            (let sorted_comments = sort_key created_at comments;
                 owners' = map replace_at os;
                 s = lgtm_comments owners' sorted_comments
                       \<lparr>approved = False, hold = False, lgtm_comment = False\<rparr>
             in (approved s, hold s)))"

text \<open>
  The approval gate in the words of the specification: a machine over the four commands
  with the state (approved, hold, lgtm seen), fed with the lines of the comments of the
  approvers in the order of their creation times; \<open>normalise\<close> is what is done to an
  approver identifier before the membership checks.
\<close>

datatype command = Lgtm | LgtmCancel | Hold | HoldCancel

fun parse_command :: "string \<Rightarrow> command option" where
  "parse_command line =
     (if line = ''/lgtm'' then Some Lgtm
      else if line = ''/lgtm cancel'' then Some LgtmCancel
      else if line = ''/hold'' then Some Hold
      else if line = ''/hold cancel'' then Some HoldCancel
      else None)"

fun approval_step :: "bool \<times> bool \<times> bool \<Rightarrow> command option \<Rightarrow> bool \<times> bool \<times> bool" where
  "approval_step (appr, hld, seen) (Some Lgtm) = (True, hld, True)"
| "approval_step (appr, hld, seen) (Some LgtmCancel) = (False, hld, False)"
| "approval_step (appr, hld, seen) (Some Hold) = (False, True, seen)"
| "approval_step (appr, hld, seen) (Some HoldCancel) = (seen, False, seen)"
| "approval_step (appr, hld, seen) None = (appr, hld, seen)"

definition strip_leading_at :: "string \<Rightarrow> string" where
  "strip_leading_at u = (case u of [] \<Rightarrow> [] | c # cs \<Rightarrow> if c = CHR ''@'' then cs else u)"

definition evaluate_approval ::
  "(string \<Rightarrow> string) \<Rightarrow> string list \<Rightarrow> ('t::linorder) comment list \<Rightarrow> bool \<times> bool" where
  "evaluate_approval normalise approvers comments =
     (if approvers = [] then (False, False)
      else
        (let by_approvers = filter (\<lambda>c. username c \<in> normalise ` set approvers)
                              (sort_key created_at comments);
             lines = concat (map (\<lambda>c. split_on (CHR 0x0A) (body c)) by_approvers);
             (appr, hld, seen) = foldl approval_step (False, False, False)
                                   (map parse_command lines)
         in (appr, hld)))"

subsection \<open>Reading the definitions above\<close>

text \<open>Some changed path of the merge request ends with the path of the entry's saas file:
  the test of \<^verbatim>\<open>collect_compare_diffs\<close> on \<^verbatim>\<open>changed_path_matches\<close>.\<close>

definition path_changed :: "string list \<Rightarrow> state_entry \<Rightarrow> bool" where
  "path_changed changed_paths d = (\<exists>p \<in> set changed_paths. endswith p (saas_file_path d))"

text \<open>The three variables of \<^verbatim>\<open>check_if_lgtm\<close> as the state of the machine, and what
  the loop keeps true of them: an approval has its \<^verbatim>\<open>/lgtm\<close>.\<close>

definition lgtm_triple :: "lgtm_state \<Rightarrow> bool \<times> bool \<times> bool" where
  "lgtm_triple s = (approved s, hold s, lgtm_comment s)"

definition lgtm_inv :: "lgtm_state \<Rightarrow> bool" where
  "lgtm_inv s = (approved s \<longrightarrow> lgtm_comment s)"

subsection \<open>Sample states and comments\<close>

definition example_current :: state_entry where
  "example_current =
     \<lparr>saas_file_path = ''/services/app/cicd/saas.yaml'',
      saas_file_name = ''app'',
      resource_template_name = ''web'',
      cluster = ''prod-01'',
      namespace = ''app-prod'',
      environment = ''production'',
      url = ''https://git/example'',
      ref = ''abc'',
      parameters = fmempty,
      saas_file_definitions =
        \<lparr>managed_resource_types = [''Deployment''], image_patterns = [''quay.io/app''],
         use_channel_in_image_tag = False\<rparr>,
      delete = None,
      disable = None\<rparr>"

definition example_desired :: state_entry where
  "example_desired = example_current\<lparr>ref := ''def''\<rparr>"

definition example_parameters :: "json \<Rightarrow> json \<Rightarrow> (string, json) fmap" where
  "example_parameters replicas limits =
     fmupd ''REPLICAS'' replicas (fmupd ''LIMITS'' limits fmempty)"

definition example_comments :: "nat comment list" where
  "example_comments =
     [\<lparr>username = ''alice'', body = ''/hold'', created_at = 2\<rparr>,
      \<lparr>username = ''bob'', body = ''/lgtm cancel'', created_at = 3\<rparr>,
      \<lparr>username = ''alice'', body = ''/lgtm'', created_at = 1\<rparr>,
      \<lparr>username = ''alice'', body = ''thanks\<newline>/hold cancel'', created_at = 3\<rparr>]"

section \<open>The states as objects of a store (\<^verbatim>\<open>valid_diff\<close> in saas\_file\_owners.py)\<close>

subsection \<open>Values and objects\<close>

text \<open>
  \<^verbatim>\<open>valid_diff\<close> pops keys from dicts in place, so what it leaves of its arguments
  depends on which objects the pops reach. Here a state is a reference into a store of
  objects: a dict object holds its items in insertion order, a list object its elements; an
  item or element is an atom or the address of an object. The address of an object is its
  position in the store, and a new object goes to the end of the store.
\<close>

datatype pyval = VNone | VBool bool | VInt int | VStr string | VRef nat

datatype pyobj = ODict "(string \<times> pyval) list" | OList "pyval list"

type_synonym store = "pyobj list"

text \<open>The memo of \<^verbatim>\<open>copy.deepcopy\<close>: the objects copied so far, with their copies.\<close>

type_synonym memo = "(nat \<times> nat) list"

subsection \<open>\<^verbatim>\<open>copy.deepcopy\<close>\<close>

text \<open>
  \<^verbatim>\<open>deepcopy(x, memo)\<close> answers an atom as it is and the copy of an object already in
  the memo; otherwise it makes an empty object \<open>y\<close>, enters it in the memo, and fills it
  with the copies of the elements of \<open>x\<close>, made one after the other with the memo handed
  on (the keys of a dict are strings and stay). The recursion of Python is bounded by the
  interpreter's recursion limit; here it is bounded by \<open>fuel\<close>. A result comes with the
  store the call has reached, also when it is an error.
\<close>

fun copy_items ::
  "(pyval \<Rightarrow> memo \<Rightarrow> store \<Rightarrow> (py_error + pyval \<times> memo) \<times> store) \<Rightarrow> pyval list \<Rightarrow> memo \<Rightarrow> store
     \<Rightarrow> (py_error + pyval list \<times> memo) \<times> store" where
  "copy_items f [] memo h = (Inr ([], memo), h)"
| "copy_items f (v # vs) memo h =
     (case f v memo h of
        (Inl e, h1) \<Rightarrow> (Inl e, h1)
      | (Inr (v', memo1), h1) \<Rightarrow>
          (case copy_items f vs memo1 h1 of
             (Inl e, h2) \<Rightarrow> (Inl e, h2)
           | (Inr (vs', memo2), h2) \<Rightarrow> (Inr (v' # vs', memo2), h2)))"

fun deepcopy :: "nat \<Rightarrow> pyval \<Rightarrow> memo \<Rightarrow> store \<Rightarrow> (py_error + pyval \<times> memo) \<times> store" where
  "deepcopy fuel (VRef a) memo h =
     (case map_of memo a of
        Some y \<Rightarrow> (Inr (VRef y, memo), h)
      | None \<Rightarrow>
          (case fuel of
             0 \<Rightarrow> (Inl RecursionError, h)
           | Suc fuel' \<Rightarrow>
               if length h \<le> a then (Inl DanglingReference, h)
               else
                 (let y = length h
                  in case h ! a of
                       OList vs \<Rightarrow>
                         (case copy_items (deepcopy fuel') vs ((a, y) # memo) (h @ [OList []]) of
                            (Inl e, h') \<Rightarrow> (Inl e, h')
                          | (Inr (vs', memo'), h') \<Rightarrow>
                              (Inr (VRef y, memo'), h'[y := OList vs']))
                     | ODict kvs \<Rightarrow>
                         (case copy_items (deepcopy fuel') (map snd kvs) ((a, y) # memo)
                                 (h @ [ODict []]) of
                            (Inl e, h') \<Rightarrow> (Inl e, h')
                          | (Inr (vs', memo'), h') \<Rightarrow>
                              (Inr (VRef y, memo'), h'[y := ODict (zip (map fst kvs) vs')])))))"
| "deepcopy fuel v memo h = (Inr (v, memo), h)"


subsection \<open>The operations on the copies\<close>

text \<open>\<^verbatim>\<open>c.pop(k)\<close>, \<^verbatim>\<open>c.pop(k, None)\<close> and \<^verbatim>\<open>c[k]\<close> with the errors of Python
  when \<open>c\<close> is not a dict or has no key \<open>k\<close>, and the body of the two loops of
  \<^verbatim>\<open>valid_diff\<close>.\<close>

definition dict_remove :: "string \<Rightarrow> (string \<times> pyval) list \<Rightarrow> (string \<times> pyval) list" where
  "dict_remove k kvs = filter (\<lambda>kv. fst kv \<noteq> k) kvs"

definition pop :: "pyval \<Rightarrow> string \<Rightarrow> store \<Rightarrow> (py_error + unit) \<times> store" where
  "pop c k h =
     (case c of
        VRef a \<Rightarrow>
          if length h \<le> a then (Inl DanglingReference, h)
          else
            (case h ! a of
               OList vs \<Rightarrow> (Inl TypeError, h)
             | ODict kvs \<Rightarrow>
                 (case map_of kvs k of
                    None \<Rightarrow> (Inl (KeyError k), h)
                  | Some v \<Rightarrow> (Inr (), h[a := ODict (dict_remove k kvs)])))
      | _ \<Rightarrow> (Inl AttributeError, h))"

definition pop_default :: "pyval \<Rightarrow> string \<Rightarrow> store \<Rightarrow> (py_error + unit) \<times> store" where
  "pop_default c k h =
     (case c of
        VRef a \<Rightarrow>
          if length h \<le> a then (Inl DanglingReference, h)
          else
            (case h ! a of
               OList vs \<Rightarrow> (Inl TypeError, h)
             | ODict kvs \<Rightarrow> (Inr (), h[a := ODict (dict_remove k kvs)]))
      | _ \<Rightarrow> (Inl AttributeError, h))"

definition getitem :: "pyval \<Rightarrow> string \<Rightarrow> store \<Rightarrow> py_error + pyval" where
  "getitem c k h =
     (case c of
        VRef a \<Rightarrow>
          if length h \<le> a then Inl DanglingReference
          else
            (case h ! a of
               OList vs \<Rightarrow> Inl TypeError
             | ODict kvs \<Rightarrow>
                 (case map_of kvs k of
                    None \<Rightarrow> Inl (KeyError k)
                  | Some v \<Rightarrow> Inr v))
      | _ \<Rightarrow> Inl TypeError)"

definition strip_entry :: "pyval \<Rightarrow> store \<Rightarrow> (py_error + unit) \<times> store" where
  "strip_entry c h =
     (case pop c ''ref'' h of
        (Inl e, h1) \<Rightarrow> (Inl e, h1)
      | (Inr _, h1) \<Rightarrow>
     (case pop c ''parameters'' h1 of
        (Inl e, h2) \<Rightarrow> (Inl e, h2)
      | (Inr _, h2) \<Rightarrow>
     (case getitem c ''saas_file_definitions'' h2 of
        Inl e \<Rightarrow> (Inl e, h2)
      | Inr sfd \<Rightarrow>
     (case pop sfd ''use_channel_in_image_tag'' h2 of
        (Inl e, h3) \<Rightarrow> (Inl e, h3)
      | (Inr _, h3) \<Rightarrow> pop_default c ''disable'' h3))))"

fun strip_entries :: "pyval list \<Rightarrow> store \<Rightarrow> (py_error + unit) \<times> store" where
  "strip_entries [] h = (Inr (), h)"
| "strip_entries (c # cs) h =
     (case strip_entry c h of
        (Inl e, h1) \<Rightarrow> (Inl e, h1)
      | (Inr _, h1) \<Rightarrow> strip_entries cs h1)"

text \<open>The elements a \<^verbatim>\<open>for\<close> loop takes from a value: the elements of a list, the
  keys of a dict, the characters of a string. The loops of \<^verbatim>\<open>valid_diff\<close> change dicts
  only, so the list they run over stays as it is while they run.\<close>

definition iter_items :: "pyval \<Rightarrow> store \<Rightarrow> py_error + pyval list" where
  "iter_items v h =
     (case v of
        VRef a \<Rightarrow>
          if length h \<le> a then Inl DanglingReference
          else (case h ! a of
                  OList vs \<Rightarrow> Inr vs
                | ODict kvs \<Rightarrow> Inr (map (\<lambda>kv. VStr (fst kv)) kvs))
      | VStr s \<Rightarrow> Inr (map (\<lambda>c. VStr [c]) s)
      | _ \<Rightarrow> Inl TypeError)"

definition strip_state :: "pyval \<Rightarrow> store \<Rightarrow> (py_error + unit) \<times> store" where
  "strip_state state_copy h =
     (case iter_items state_copy h of
        Inl e \<Rightarrow> (Inl e, h)
      | Inr cs \<Rightarrow> strip_entries cs h)"

subsection \<open>Equality of objects\<close>

text \<open>
  \<^verbatim>\<open>==\<close> on the copies: atoms by value (a boolean is equal to the integer 0 or 1),
  an object is equal to itself, two lists are equal when they have the same length and
  equal elements, two dicts when they have the same number of items and every key of the
  first has an equal value in the second; the first difference decides.
\<close>

fun atom_eq :: "pyval \<Rightarrow> pyval \<Rightarrow> bool" where
  "atom_eq VNone VNone = True"
| "atom_eq (VBool a) (VBool b) = (a = b)"
| "atom_eq (VInt i) (VInt j) = (i = j)"
| "atom_eq (VBool a) (VInt j) = ((if a then 1 else 0) = j)"
| "atom_eq (VInt i) (VBool b) = (i = (if b then 1 else 0))"
| "atom_eq (VStr s) (VStr t) = (s = t)"
| "atom_eq _ _ = False"

fun eq_all ::
  "(pyval \<Rightarrow> pyval \<Rightarrow> py_error + bool) \<Rightarrow> (pyval \<times> pyval option) list \<Rightarrow> py_error + bool" where
  "eq_all f [] = Inr True"
| "eq_all f ((v, None) # ps) = Inr False"
| "eq_all f ((v, Some w) # ps) =
     (case f v w of
        Inl e \<Rightarrow> Inl e
      | Inr False \<Rightarrow> Inr False
      | Inr True \<Rightarrow> eq_all f ps)"

fun py_eq :: "nat \<Rightarrow> store \<Rightarrow> pyval \<Rightarrow> pyval \<Rightarrow> py_error + bool" where
  "py_eq fuel h (VRef a) (VRef b) =
     (if a = b then Inr True
      else
        (case fuel of
           0 \<Rightarrow> Inl RecursionError
         | Suc fuel' \<Rightarrow>
             if length h \<le> a \<or> length h \<le> b then Inl DanglingReference
             else
               (case (h ! a, h ! b) of
                  (OList xs, OList ys) \<Rightarrow>
                    if length xs \<noteq> length ys then Inr False
                    else eq_all (py_eq fuel' h) (zip xs (map Some ys))
                | (ODict kvs, ODict lws) \<Rightarrow>
                    if length kvs \<noteq> length lws then Inr False
                    else eq_all (py_eq fuel' h) (map (\<lambda>kv. (snd kv, map_of lws (fst kv))) kvs)
                | _ \<Rightarrow> Inr False)))"
| "py_eq fuel h (VRef a) w = Inr False"
| "py_eq fuel h v (VRef b) = Inr False"
| "py_eq fuel h v w = Inr (atom_eq v w)"

subsection \<open>\<^verbatim>\<open>valid_diff\<close> on the store\<close>

definition valid_diff_store ::
  "nat \<Rightarrow> pyval \<Rightarrow> pyval \<Rightarrow> store \<Rightarrow> (py_error + bool) \<times> store" where
  "valid_diff_store fuel current_state desired_state h =
     (case deepcopy fuel current_state [] h of
        (Inl e, h1) \<Rightarrow> (Inl e, h1)
      | (Inr (current_state_copy, _), h1) \<Rightarrow>
     (case strip_state current_state_copy h1 of
        (Inl e, h2) \<Rightarrow> (Inl e, h2)
      | (Inr _, h2) \<Rightarrow>
     (case deepcopy fuel desired_state [] h2 of
        (Inl e, h3) \<Rightarrow> (Inl e, h3)
      | (Inr (desired_state_copy, _), h3) \<Rightarrow>
     (case strip_state desired_state_copy h3 of
        (Inl e, h4) \<Rightarrow> (Inl e, h4)
      | (Inr _, h4) \<Rightarrow> (py_eq fuel h4 current_state_copy desired_state_copy, h4)))))"

subsection \<open>What the copies refer to\<close>

text \<open>A value is fresh for \<open>n\<close> when it is an atom or an address from \<open>n\<close> on; the
  objects of a store from \<open>n\<close> on hold fresh values only; the copies in a memo are
  fresh.\<close>

fun fresh :: "nat \<Rightarrow> pyval \<Rightarrow> bool" where
  "fresh n (VRef a) = (n \<le> a)"
| "fresh n v = True"

fun obj_values :: "pyobj \<Rightarrow> pyval list" where
  "obj_values (OList vs) = vs"
| "obj_values (ODict kvs) = map snd kvs"

definition copies_fresh :: "nat \<Rightarrow> store \<Rightarrow> bool" where
  "copies_fresh n h = (\<forall>a. n \<le> a \<and> a < length h \<longrightarrow> list_all (fresh n) (obj_values (h ! a)))"

definition memo_fresh :: "nat \<Rightarrow> memo \<Rightarrow> bool" where
  "memo_fresh n memo = list_all (\<lambda>p. n \<le> snd p) memo"

text \<open>The contract of a copying function for the objects below \<open>n\<close>: it leaves them as
  they are, the store does not shrink, and a result is fresh and keeps the objects from
  \<open>n\<close> on and the memo fresh.\<close>

definition copies_above ::
  "nat \<Rightarrow> (pyval \<Rightarrow> memo \<Rightarrow> store \<Rightarrow> (py_error + pyval \<times> memo) \<times> store) \<Rightarrow> bool" where
  "copies_above n f =
     (\<forall>v memo h r h'.
        n \<le> length h \<and> copies_fresh n h \<and> memo_fresh n memo \<and> f v memo h = (r, h') \<longrightarrow>
          take n h' = take n h \<and> length h \<le> length h'
          \<and> (\<forall>v' memo'. r = Inr (v', memo') \<longrightarrow>
                 copies_fresh n h' \<and> memo_fresh n memo' \<and> fresh n v'))"


subsection \<open>The value a reference stands for\<close>

text \<open>The tree below a value: what \<^verbatim>\<open>json.dumps\<close> would print. A store is closed when
  its objects refer to its objects.\<close>

datatype pytree =
    TNone
  | TBool bool
  | TInt int
  | TStr string
  | TList "pytree list"
  | TDict "(string \<times> pytree) list"

fun unfold_value :: "nat \<Rightarrow> store \<Rightarrow> pyval \<Rightarrow> pytree option" where
  "unfold_value fuel h VNone = Some TNone"
| "unfold_value fuel h (VBool b) = Some (TBool b)"
| "unfold_value fuel h (VInt i) = Some (TInt i)"
| "unfold_value fuel h (VStr s) = Some (TStr s)"
| "unfold_value 0 h (VRef a) = None"
| "unfold_value (Suc fuel) h (VRef a) =
     (if length h \<le> a then None
      else (case h ! a of
              OList vs \<Rightarrow> map_option TList (those (map (unfold_value fuel h) vs))
            | ODict kvs \<Rightarrow>
                map_option (\<lambda>ts. TDict (zip (map fst kvs) ts))
                  (those (map (unfold_value fuel h) (map snd kvs)))))"

fun val_in :: "store \<Rightarrow> pyval \<Rightarrow> bool" where
  "val_in h (VRef a) = (a < length h)"
| "val_in h v = True"

definition closed :: "store \<Rightarrow> bool" where
  "closed h = list_all (\<lambda>ob. list_all (val_in h) (obj_values ob)) h"

subsection \<open>A sample store\<close>

text \<open>The current state is the list at address 4 and the desired state the list at
  address 9, with one entry each.\<close>

definition example_store :: store where
  "example_store =
     [OList [VStr ''Deployment''],
      ODict [(''managed_resource_types'', VRef 0), (''use_channel_in_image_tag'', VBool False)],
      ODict [(''replicas'', VInt 2)],
      ODict [(''saas_file_name'', VStr ''app''), (''namespace'', VStr ''app-prod''),
             (''ref'', VStr ''abc''), (''parameters'', VRef 2),
             (''saas_file_definitions'', VRef 1), (''delete'', VNone)],
      OList [VRef 3],
      OList [VStr ''Deployment''],
      ODict [(''managed_resource_types'', VRef 5), (''use_channel_in_image_tag'', VBool True)],
      ODict [(''replicas'', VInt 3)],
      ODict [(''saas_file_name'', VStr ''app''), (''namespace'', VStr ''app-prod''),
             (''ref'', VStr ''def''), (''parameters'', VRef 7),
             (''saas_file_definitions'', VRef 6), (''delete'', VNone),
             (''disable'', VBool True)],
      OList [VRef 8]]"

section \<open>The group reconciler (ocm\_groups.py)\<close>

text \<open>
  A membership is the dict \<^verbatim>\<open>{cluster, group, user}\<close> of \<^verbatim>\<open>get_cluster_state\<close>; a
  diff is the dict \<^verbatim>\<open>{action, cluster, group, user}\<close> that \<^verbatim>\<open>act\<close> reads. The calls
  of a run are the log, the invocations of \<^verbatim>\<open>act\<close> and the calls of the OCM client of
  the diff's cluster.
\<close>

record membership =
  m_cluster :: string
  m_group :: string
  m_user :: string

record group_diff =
  diff_action :: string
  diff_cluster :: string
  diff_group :: string
  diff_user :: string

datatype ocm_event =
    OcmLogInfo group_diff
  | ActCall group_diff
  | AddUserToGroup string string string
  | DelUserFromGroup string string string

text \<open>\<^verbatim>\<open>act(diff, ocm_map)\<close>: the invocation, then the client call for the two membership
  actions and nothing for any other action.\<close>

definition act :: "group_diff \<Rightarrow> ocm_event list \<Rightarrow> ocm_event list" where
  "act diff evs =
     (let evs0 = evs @ [ActCall diff];
          c = diff_cluster diff;
          g = diff_group diff;
          u = diff_user diff;
          action = diff_action diff
      in if action = ''add_user_to_group'' then evs0 @ [AddUserToGroup c g u]
         else if action = ''del_user_from_group'' then evs0 @ [DelUserFromGroup c g u]
         else evs0)"

text \<open>The loop of \<^verbatim>\<open>run\<close> over the diffs.\<close>

fun act_on_diffs :: "bool \<Rightarrow> group_diff list \<Rightarrow> ocm_event list \<Rightarrow> ocm_event list" where
  "act_on_diffs dry_run [] evs = evs"
| "act_on_diffs dry_run (diff # diffs) evs =
     (if py_in (diff_action diff) [''create_group'', ''delete_group'']
      then act_on_diffs dry_run diffs evs
      else
        (let evs1 = evs @ [OcmLogInfo diff]
         in if \<not> dry_run then act_on_diffs dry_run diffs (act diff evs1)
            else act_on_diffs dry_run diffs evs1))"

text \<open>
  \<^verbatim>\<open>run\<close> of ocm\_groups.py. The current and the desired state are what
  \<^verbatim>\<open>fetch_current_state\<close> and \<^verbatim>\<open>openshift_groups.fetch_desired_state\<close> answer;
  \<^verbatim>\<open>openshift_groups.calculate_diff\<close> and \<^verbatim>\<open>openshift_groups.validate_diffs\<close> live in
  another module and are parameters: the first any function from the two filtered states
  to diffs, the second a test that ends the run when it fails.
\<close>

definition ocm_groups_run ::
  "(membership list \<Rightarrow> membership list \<Rightarrow> group_diff list) \<Rightarrow> (group_diff list \<Rightarrow> bool)
     \<Rightarrow> bool \<Rightarrow> membership list \<Rightarrow> membership list \<Rightarrow> (py_error + unit) \<times> ocm_event list" where
  "ocm_groups_run calculate_diff validate_diffs dry_run current_state desired_state =
     (let current_state' = filter (\<lambda>s. m_group s = ''dedicated-admins'') current_state;
          desired_state' = filter (\<lambda>s. m_group s = ''dedicated-admins'') desired_state;
          diffs = calculate_diff current_state' desired_state'
      in if \<not> validate_diffs diffs then (Inl SystemExit, [])
         else (Inr (), act_on_diffs dry_run diffs []))"

text \<open>The diffs \<^verbatim>\<open>act\<close> was invoked with, in order.\<close>

definition act_calls :: "ocm_event list \<Rightarrow> group_diff list" where
  "act_calls evs = concat (map (\<lambda>e. case e of ActCall d \<Rightarrow> [d] | _ \<Rightarrow> []) evs)"

text \<open>A sample diff function for the runs below: for every membership that is desired
  and not current a group creation and a user addition, for every membership that is
  current and not desired a user removal and a group deletion.\<close>

definition example_calculate_diff ::
  "membership list \<Rightarrow> membership list \<Rightarrow> group_diff list" where
  "example_calculate_diff current_state desired_state =
     concat (map (\<lambda>s. [\<lparr>diff_action = ''create_group'', diff_cluster = m_cluster s,
                           diff_group = m_group s, diff_user = []\<rparr>,
                         \<lparr>diff_action = ''add_user_to_group'', diff_cluster = m_cluster s,
                           diff_group = m_group s, diff_user = m_user s\<rparr>])
               (filter (\<lambda>s. \<not> py_in s current_state) desired_state))
     @ concat (map (\<lambda>s. [\<lparr>diff_action = ''del_user_from_group'', diff_cluster = m_cluster s,
                           diff_group = m_group s, diff_user = m_user s\<rparr>,
                         \<lparr>diff_action = ''delete_group'', diff_cluster = m_cluster s,
                           diff_group = m_group s, diff_user = []\<rparr>])
               (filter (\<lambda>s. \<not> py_in s desired_state) current_state))"

section \<open>Properties of the trigger registry\<close>

lemma register_trigger_fst: "fst (register_trigger name reg) = (name \<notin> reg)"
  by (simp add: register_trigger_def)

lemma register_trigger_snd: "snd (register_trigger name reg) = insert name reg"
  by (auto simp: register_trigger_def)

lemma register_all_length: "length (fst (register_all names reg)) = length names"
  by (induction names arbitrary: reg) (simp_all add: split_beta Let_def)

lemma register_all_snd: "snd (register_all names reg) = reg \<union> set names"
  by (induction names arbitrary: reg)
     (simp_all add: split_beta Let_def register_trigger_snd)

lemma register_all_take:
  "snd (register_all (take k names) reg) = reg \<union> set (take k names)"
  by (rule register_all_snd)

lemma register_all_nth:
  "i < length names \<Longrightarrow>
   fst (register_all names reg) ! i = (names ! i \<notin> reg \<union> set (take i names))"
proof (induction names arbitrary: reg i)
  case Nil
  then show ?case by simp
next
  case (Cons name names)
  show ?case
  proof (cases i)
    case 0
    then show ?thesis
      by (simp add: split_beta Let_def register_trigger_fst)
  next
    case (Suc j)
    with Cons.prems have "j < length names" by simp
    from Cons.IH [OF this, of "insert name reg"] Suc show ?thesis
      by (simp add: split_beta Let_def register_trigger_snd)
  qed
qed

lemma first_occurrence_unique:
  assumes "x \<in> set names"
  shows "\<exists>!i. i < length names \<and> names ! i = x \<and> x \<notin> set (take i names)"
proof -
  let ?P = "\<lambda>i. i < length names \<and> names ! i = x"
  from assms have ex: "\<exists>i. ?P i" by (auto simp: in_set_conv_nth)
  define m where "m = (LEAST i. ?P i)"
  have Pm: "?P m" unfolding m_def using ex by (rule LeastI_ex)
  have least: "\<And>j. ?P j \<Longrightarrow> m \<le> j" unfolding m_def by (rule Least_le)
  have notin: "x \<notin> set (take m names)"
  proof
    assume "x \<in> set (take m names)"
    then obtain j where j: "j < length (take m names)" "take m names ! j = x"
      by (auto simp: in_set_conv_nth)
    then have "j < m" "?P j" using Pm by auto
    with least [of j] show False by simp
  qed
  show ?thesis
  proof (rule ex1I [of _ m])
    show "m < length names \<and> names ! m = x \<and> x \<notin> set (take m names)"
      using Pm notin by simp
  next
    fix i assume i: "i < length names \<and> names ! i = x \<and> x \<notin> set (take i names)"
    then have "m \<le> i" using least by simp
    moreover have "\<not> m < i"
    proof
      assume "m < i"
      then have "take i names ! m = x" "m < length (take i names)"
        using Pm i by simp_all
      then have "x \<in> set (take i names)" by (metis nth_mem)
      with i show False by simp
    qed
    ultimately show "i = m" by simp
  qed
qed

text \<open>
  C1. Check-and-set over the pass-scoped registry. For every sequence \<open>names\<close> of identities
  registered one after the other from the empty registry: the \<open>i\<close>-th call answers true
  exactly when its identity is not in the registry left by the calls before it; the
  identity is in the registry after its call; the registry after \<open>k\<close> calls is contained in
  the registry after \<open>k + 1\<close> calls; for each identity that occurs there is exactly one call
  with that identity that answers true, and a call answers true exactly when no earlier
  call has its identity (so it is the first one and all later ones answer false); and the final registry is the set of the identities passed in.
\<close>

theorem register_trigger_check_and_set:
  "(\<forall>i < length names.
       fst (register_all names {}) ! i
         = (names ! i \<notin> snd (register_all (take i names) {}))
     \<and> fst (register_trigger (names ! i) (snd (register_all (take i names) {})))
         = fst (register_all names {}) ! i
     \<and> fst (register_all names {}) ! i = (names ! i \<notin> set (take i names))
     \<and> names ! i \<in> snd (register_all (take (Suc i) names) {})
     \<and> snd (register_all (take i names) {}) \<subseteq> snd (register_all (take (Suc i) names) {}))
   \<and> length (fst (register_all names {})) = length names
   \<and> (\<forall>x \<in> set names.
        \<exists>!i. i < length names \<and> names ! i = x \<and> fst (register_all names {}) ! i)
   \<and> snd (register_all names {}) = set names"
proof (intro conjI allI impI ballI)
  fix i assume i: "i < length names"
  show "fst (register_all names {}) ! i
          = (names ! i \<notin> snd (register_all (take i names) {}))"
    using register_all_nth [OF i, of "{}"] by (simp add: register_all_snd)
  then show "fst (register_trigger (names ! i) (snd (register_all (take i names) {})))
          = fst (register_all names {}) ! i"
    by (simp add: register_trigger_fst)
  show "fst (register_all names {}) ! i = (names ! i \<notin> set (take i names))"
    using register_all_nth [OF i, of "{}"] by simp
  show "names ! i \<in> snd (register_all (take (Suc i) names) {})"
    using i by (simp add: register_all_snd take_Suc_conv_app_nth)
  show "snd (register_all (take i names) {}) \<subseteq> snd (register_all (take (Suc i) names) {})"
    using i by (auto simp: register_all_snd take_Suc_conv_app_nth)
next
  show "length (fst (register_all names {})) = length names"
    by (rule register_all_length)
next
  fix x assume x: "x \<in> set names"
  have eq: "\<And>i. (i < length names \<and> names ! i = x \<and> fst (register_all names {}) ! i)
              = (i < length names \<and> names ! i = x \<and> x \<notin> set (take i names))"
    using register_all_nth [of _ names "{}"] by auto
  show "\<exists>!i. i < length names \<and> names ! i = x \<and> fst (register_all names {}) ! i"
    unfolding eq using first_occurrence_unique [OF x] .
next
  show "snd (register_all names {}) = set names"
    by (simp add: register_all_snd)
qed

theorem register_trigger_check_and_set_witness:
  "fst (register_all [''x'', ''y'', ''x''] {}) = [True, True, False]
   \<and> snd (register_all [''x'', ''y'', ''x''] {}) = {''x'', ''y''}
   \<and> (\<exists>!i. i < length [''x'', ''y'', ''x''] \<and> [''x'', ''y'', ''x''] ! i = ''x''
            \<and> fst (register_all [''x'', ''y'', ''x''] {}) ! i)"
proof -
  have a: "fst (register_all [''x'', ''y'', ''x''] {}) = [True, True, False]"
    by (simp add: register_trigger_def)
  have b: "snd (register_all [''x'', ''y'', ''x''] {}) = {''x'', ''y''}"
    by (auto simp: register_trigger_def)
  have c: "''x'' \<in> set [''x'', ''y'', ''x'']" by simp
  from register_trigger_check_and_set [of "[''x'', ''y'', ''x'']"] c
  have d: "\<exists>!i. i < length [''x'', ''y'', ''x''] \<and> [''x'', ''y'', ''x''] ! i = ''x''
            \<and> fst (register_all [''x'', ''y'', ''x''] {}) ! i"
    by blast
  show ?thesis by (intro conjI a b d)
qed

section \<open>Properties of trigger dispatch\<close>

lemma update_state_calls_append [simp]:
  "update_state_calls (xs @ ys) = update_state_calls xs @ update_state_calls ys"
  by (simp add: update_state_calls_def)

lemma dispatch_calls_append [simp]:
  "dispatch_calls (xs @ ys) = dispatch_calls xs @ dispatch_calls ys"
  by (simp add: dispatch_calls_def)

lemma error_logs_append [simp]:
  "error_logs (xs @ ys) = error_logs xs @ error_logs ys"
  by (simp add: error_logs_def)

lemma calls_simps [simp]:
  "update_state_calls [] = []"
  "update_state_calls (UpdateState t s # evs) = (t, s) # update_state_calls evs"
  "update_state_calls (LogInfo l # evs) = update_state_calls evs"
  "update_state_calls (LogError m # evs) = update_state_calls evs"
  "update_state_calls (GetDiff t d # evs) = update_state_calls evs"
  "update_state_calls (TriggerJob i j # evs) = update_state_calls evs"
  "update_state_calls (OsbCreate d c n k r # evs) = update_state_calls evs"
  by (simp_all add: update_state_calls_def)

lemma dispatch_simps [simp]:
  "dispatch_calls [] = []"
  "dispatch_calls (UpdateState t s # evs) = dispatch_calls evs"
  "dispatch_calls (LogInfo l # evs) = dispatch_calls evs"
  "dispatch_calls (LogError m # evs) = dispatch_calls evs"
  "dispatch_calls (GetDiff t d # evs) = dispatch_calls evs"
  "dispatch_calls (TriggerJob i j # evs) = TriggerJob i j # dispatch_calls evs"
  "dispatch_calls (OsbCreate d c n k r # evs) = OsbCreate d c n k r # dispatch_calls evs"
  by (simp_all add: dispatch_calls_def)

lemma error_logs_simps [simp]:
  "error_logs [] = []"
  "error_logs (UpdateState t s # evs) = error_logs evs"
  "error_logs (LogInfo l # evs) = error_logs evs"
  "error_logs (LogError m # evs) = m # error_logs evs"
  "error_logs (GetDiff t d # evs) = error_logs evs"
  "error_logs (TriggerJob i j # evs) = error_logs evs"
  "error_logs (OsbCreate d c n k r # evs) = error_logs evs"
  by (simp_all add: error_logs_def)

lemma finish_trigger_events:
  "finish_trigger C error dry_run tt spec st = (r, st') \<Longrightarrow>
     (r = Inr error \<or> (\<exists>d. r = Inl (Raised d) \<and> \<not> error \<and> \<not> dry_run))
     \<and> already_triggered st' = already_triggered st
     \<and> clock_reads st' = clock_reads st
     \<and> events st' = events st @ (if \<not> error \<and> \<not> dry_run then [UpdateState tt spec] else [])"
  by (auto simp: finish_trigger_def emit_def Let_def split: if_splits option.splits)

lemma trigger_jenkins_events:
  assumes "trigger_jenkins C spec inst dry_run tt st = (r, st')"
  shows "\<exists>new. events st' = events st @ new
           \<and> update_state_calls new
               = (if \<not> dry_run \<and> (r = Inr False \<or> (\<exists>d. r = Inl (Raised d)))
                  then [(tt, spec)] else [])
           \<and> (r = Inr True) = (error_logs new \<noteq> [])
           \<and> length (error_logs new) \<le> 1
           \<and> (dispatch_calls new \<noteq> [] \<longrightarrow>
                 get_openshift_saas_deploy_job_name C (spec_saas_file_name spec) (spec_env_name spec)
                   \<notin> already_triggered st)"
  using assms
  by (auto simp: trigger_jenkins_def finish_trigger_def emit_def register_trigger_def Let_def
           split: option.splits if_splits)

lemma trigger_tekton_events:
  assumes "trigger_tekton C spec ns cl cu dry_run tt integ iv st = (r, st')"
  shows "\<exists>new. events st' = events st @ new
           \<and> update_state_calls new
               = (if \<not> dry_run \<and> (r = Inr False \<or> (\<exists>d. r = Inl (Raised d)))
                  then [(tt, spec)] else [])
           \<and> (r = Inr True) = (error_logs new \<noteq> [])
           \<and> length (error_logs new) \<le> 1
           \<and> (dispatch_calls new \<noteq> [] \<longrightarrow>
                 lower (spec_saas_file_name spec @ ''-'' @ spec_env_name spec)
                   \<notin> already_triggered st)"
  using assms
  by (auto simp: trigger_tekton_def construct_tekton_trigger_resource_def finish_trigger_def
                 emit_def register_trigger_def Let_def
           split: option.splits if_splits)

lemma trigger_events:
  assumes "trigger C dry_run tt integ iv spec st = (r, st')"
  shows "\<exists>new. events st' = events st @ new
           \<and> update_state_calls new
               = (if \<not> dry_run \<and> (r = Inr False \<or> (\<exists>d. r = Inl (Raised d)))
                  then [(tt, spec)] else [])
           \<and> (r = Inr True) = (error_logs new \<noteq> [])
           \<and> length (error_logs new) \<le> 1"
proof (cases "spec_pipelines_provider spec")
  case (Jenkins inst)
  with assms have "trigger_jenkins C spec inst dry_run tt st = (r, st')"
    by (simp add: trigger_def)
  from trigger_jenkins_events [OF this] show ?thesis by blast
next
  case (Tekton ns cl cu)
  with assms have "trigger_tekton C spec ns cl cu dry_run tt integ iv st = (r, st')"
    by (simp add: trigger_def)
  from trigger_tekton_events [OF this] show ?thesis by blast
next
  case (OtherProvider p)
  with assms show ?thesis
    by (auto simp: trigger_def emit_def)
qed









lemma lower_app_stage: "lower ''App-Stage'' = ''app-stage''"
  by code_simp

lemma new_events_append: "events st' = events st @ new \<Longrightarrow> new_events st st' = new"
  by (simp add: new_events_def)

lemma threaded_run_events:
  assumes "threaded_run (trigger C dry_run tt integ iv) specs st = (Inr errors, st')"
  shows "\<exists>new. events st' = events st @ new
           \<and> update_state_calls new =
               (if dry_run then []
                else map (\<lambda>(e, s). (tt, s)) (filter (\<lambda>(e, s). \<not> e) (zip errors specs)))"
  using assms
proof (induction specs arbitrary: st errors)
  case Nil
  then show ?case by simp
next
  case (Cons x xs)
  from Cons.prems obtain b st1 bs where
    1: "trigger C dry_run tt integ iv x st = (Inr b, st1)"
    and 2: "threaded_run (trigger C dry_run tt integ iv) xs st1 = (Inr bs, st')"
    and 3: "errors = b # bs"
    by (auto split: prod.splits sum.splits)
  from trigger_events [OF 1] obtain new1 where
    n1: "events st1 = events st @ new1"
        "update_state_calls new1 = (if \<not> dry_run \<and> \<not> b then [(tt, x)] else [])"
    by auto
  from Cons.IH [OF 2] obtain new2 where
    n2: "events st' = events st1 @ new2"
        "update_state_calls new2 =
           (if dry_run then []
            else map (\<lambda>(e, s). (tt, s)) (filter (\<lambda>(e, s). \<not> e) (zip bs xs)))"
    by auto
  have "events st' = events st @ (new1 @ new2)" using n1 n2 by simp
  moreover have "update_state_calls (new1 @ new2) =
               (if dry_run then []
                else map (\<lambda>(e, s). (tt, s)) (filter (\<lambda>(e, s). \<not> e) (zip errors (x # xs))))"
    using n1 n2 3 by simp
  ultimately show ?case by blast
qed

text \<open>
  C2 (as amended). The persistent trigger state is updated exactly once for every spec that
  a pass which is not a dry run handles without an adapter error, whether a trigger was
  dispatched for the spec or its identity was already registered, and never when the
  adapter call failed or the pass is a dry run: the update-state calls that handling a spec
  adds are the single call \<open>(trigger_type, spec)\<close> when the pass is not a dry run and the
  trigger itself went without error (the answer is "no error", or the exception that leaves
  is the one of this very call), and none otherwise; over a pass they are, in order, one
  call for each spec answered "no error".
\<close>

theorem update_state_once_per_spec_without_error:
  "(trigger C dry_run tt integ iv spec st = (r, st') \<longrightarrow>
       events st' = events st @ new_events st st'
     \<and> update_state_calls (new_events st st')
         = (if \<not> dry_run \<and> (r = Inr False \<or> (\<exists>d. r = Inl (Raised d)))
            then [(tt, spec)] else []))
   \<and> (threaded_run (trigger C dry_run tt integ iv) specs st = (Inr errors, st'') \<longrightarrow>
       events st'' = events st @ new_events st st''
     \<and> update_state_calls (new_events st st'')
         = (if dry_run then []
            else map (\<lambda>(e, s). (tt, s)) (filter (\<lambda>(e, s). \<not> e) (zip errors specs))))"
proof (intro conjI impI)
  assume a: "trigger C dry_run tt integ iv spec st = (r, st')"
  from trigger_events [OF a] obtain new where
    n: "events st' = events st @ new"
       "update_state_calls new
          = (if \<not> dry_run \<and> (r = Inr False \<or> (\<exists>d. r = Inl (Raised d)))
             then [(tt, spec)] else [])"
    by blast
  from n(1) have e: "new_events st st' = new" by (rule new_events_append)
  show "events st' = events st @ new_events st st'" using n(1) e by simp
  show "update_state_calls (new_events st st')
         = (if \<not> dry_run \<and> (r = Inr False \<or> (\<exists>d. r = Inl (Raised d)))
            then [(tt, spec)] else [])"
    using n(2) e by simp
next
  assume a: "threaded_run (trigger C dry_run tt integ iv) specs st = (Inr errors, st'')"
  from threaded_run_events [OF a] obtain new where
    n: "events st'' = events st @ new"
       "update_state_calls new =
               (if dry_run then []
                else map (\<lambda>(e, s). (tt, s)) (filter (\<lambda>(e, s). \<not> e) (zip errors specs)))"
    by blast
  from n(1) have e: "new_events st st'' = new" by (rule new_events_append)
  show "events st'' = events st @ new_events st st''" using n(1) e by simp
  show "update_state_calls (new_events st st'')
         = (if dry_run then []
            else map (\<lambda>(e, s). (tt, s)) (filter (\<lambda>(e, s). \<not> e) (zip errors specs)))"
    using n(2) e by simp
qed

lemma example_settings:
  "settings example_collaborators ''saasDeployJobTemplate'' = Some ''openshift-saas-deploy''"
  by (simp add: example_collaborators_def)

lemma example_construct:
  "construct_tekton_trigger_resource example_collaborators ''App'' ''Stage''
     ''https://console'' ''pipelines'' ''i'' ''v'' ts
   = Inr (\<lparr>resource_body =
             \<lparr>apiVersion = ''tekton.dev/v1beta1'', kind = ''PipelineRun'',
              metadata_name = ''app-stage-'' @ ts,
              pipelineRef_name = ''openshift-saas-deploy'',
              params = [(''saas_file_name'', ''App''), (''env_name'', ''Stage''),
                        (''tkn_cluster_console_url'', ''https://console''),
                        (''tkn_namespace_name'', ''pipelines'')]\<rparr>,
            integration = ''i'', integration_version = ''v'',
            error_details = ''app-stage-'' @ ts\<rparr>,
          ''app-stage'')"
proof -
  have "''App'' @ ''-'' @ ''Stage'' = ''App-Stage''" by simp
  then show ?thesis
    by (simp add: construct_tekton_trigger_resource_def example_settings Let_def
          lower_app_stage)
      (simp add: example_collaborators_def)
qed

lemma sample_pass_result:
  "threaded_run (trigger example_collaborators False ''t'' ''i'' ''v'') example_specs
     initial_state
   = (Inr [False, False, True, True],
      \<lparr>already_triggered = {''openshift-saas-deploy-app-prod'', ''app-stage''},
       events =
         [LogInfo [''trigger_job'', ''ci-int'', ''openshift-saas-deploy-app-prod''],
          TriggerJob ''ci-int'' ''openshift-saas-deploy-app-prod'',
          UpdateState ''t'' (example_specs ! 0),
          UpdateState ''t'' (example_specs ! 1),
          OsbCreate False ''broken'' ''pipelines'' ''PipelineRun''
            (fst (projr (construct_tekton_trigger_resource example_collaborators ''App''
                    ''Stage'' ''https://console'' ''pipelines'' ''i'' ''v'' ''202101010000''))),
          LogError ''could not trigger pipeline app-stage in broken/pipelines. details: timeout'',
          LogError ''[app] unsupported provider: github''],
       clock_reads = 1\<rparr>)"
  by (simp add: example_specs_def example_collaborators_def trigger_def trigger_jenkins_def
        trigger_tekton_def construct_tekton_trigger_resource_def finish_trigger_def emit_def
        register_trigger_def initial_state_def lower_app_stage Let_def insert_commute)

theorem update_state_once_per_spec_without_error_witness:
  "update_state_calls
     (new_events initial_state
        (snd (threaded_run (trigger example_collaborators False ''t'' ''i'' ''v'')
                example_specs initial_state)))
   = [(''t'', example_specs ! 0), (''t'', example_specs ! 1)]"
proof -
  have "update_state_calls
     (new_events initial_state
        (snd (threaded_run (trigger example_collaborators False ''t'' ''i'' ''v'')
                example_specs initial_state)))
     = map (\<lambda>(e, s). (''t'', s))
         (filter (\<lambda>(e, s). \<not> e) (zip [False, False, True, True] example_specs))"
    using update_state_once_per_spec_without_error
            [of example_collaborators False "''t''" "''i''" "''v''" _ initial_state _ _
                example_specs "[False, False, True, True]"
                "snd (threaded_run (trigger example_collaborators False ''t'' ''i'' ''v'')
                        example_specs initial_state)"]
    by (simp add: sample_pass_result)
  then show ?thesis by (simp add: example_specs_def)
qed

text \<open>
  As the specification words it, the property fails: the second sample spec names the job of the first, so no job
  is submitted for it, and the pass still updates the trigger state for it.
\<close>

theorem update_state_without_dispatch_counterexample:
  "dispatch_calls
     (new_events
        (snd (trigger example_collaborators False ''t'' ''i'' ''v'' (example_specs ! 0)
                initial_state))
        (snd (trigger example_collaborators False ''t'' ''i'' ''v'' (example_specs ! 1)
                (snd (trigger example_collaborators False ''t'' ''i'' ''v'' (example_specs ! 0)
                        initial_state))))) = []
   \<and> update_state_calls
     (new_events
        (snd (trigger example_collaborators False ''t'' ''i'' ''v'' (example_specs ! 0)
                initial_state))
        (snd (trigger example_collaborators False ''t'' ''i'' ''v'' (example_specs ! 1)
                (snd (trigger example_collaborators False ''t'' ''i'' ''v'' (example_specs ! 0)
                        initial_state))))) = [(''t'', example_specs ! 1)]"
  by (simp add: example_specs_def example_collaborators_def trigger_def trigger_jenkins_def
        finish_trigger_def emit_def register_trigger_def initial_state_def Let_def
        new_events_def)




lemma construct_cases:
  "construct_tekton_trigger_resource C a e u n integ iv ts =
     (case settings C ''saasDeployJobTemplate'' of
        None \<Rightarrow> Inl (KeyError ''saasDeployJobTemplate'')
      | Some template \<Rightarrow>
          Inr (\<lparr>resource_body =
                  \<lparr>apiVersion = ''tekton.dev/v1beta1'', kind = ''PipelineRun'',
                   metadata_name =
                     take (UNIQUE_SAAS_FILE_ENV_COMBO_LEN C) (lower (a @ ''-'' @ e)) @ ''-'' @ ts,
                   pipelineRef_name = template,
                   params = [(''saas_file_name'', a), (''env_name'', e),
                             (''tkn_cluster_console_url'', u), (''tkn_namespace_name'', n)]\<rparr>,
                integration = integ, integration_version = iv,
                error_details =
                  take (UNIQUE_SAAS_FILE_ENV_COMBO_LEN C) (lower (a @ ''-'' @ e)) @ ''-'' @ ts\<rparr>,
               lower (a @ ''-'' @ e)))"
  by (simp add: construct_tekton_trigger_resource_def Let_def split: option.splits)

lemma trigger_tekton_registry:
  assumes "trigger_tekton C spec ns cl cu dry_run tt integ iv st = (r, st')"
    and "construct_tekton_trigger_resource C (spec_saas_file_name spec) (spec_env_name spec)
           cu ns integ iv (utcnow C (clock_reads st)) = Inr (res, nm)"
  shows "already_triggered st' = insert nm (already_triggered st)"
    and "\<exists>new. events st' = events st @ new \<and> dispatch_calls new
           = (if nm \<in> already_triggered st then []
              else [OsbCreate dry_run cl ns ''PipelineRun'' res])"
  using assms
  by (auto simp: trigger_tekton_def construct_cases finish_trigger_def
                 emit_def register_trigger_def Let_def
           split: option.splits if_splits)

lemma trigger_tekton_no_setting:
  assumes "trigger_tekton C spec ns cl cu dry_run tt integ iv st = (r, st')"
    and "settings C ''saasDeployJobTemplate'' = None"
  shows "r = Inl (KeyError ''saasDeployJobTemplate'')"
    and "already_triggered st' = already_triggered st"
    and "events st' = events st"
  using assms
  by (auto simp: trigger_tekton_def construct_cases)

lemma lower_nth:
  "i < length s \<Longrightarrow>
     (of_char (lower s ! i) :: nat)
       = (if of_char (s ! i) \<in> {65..90::nat} \<union> ({192..222} - {215})
          then of_char (s ! i) + 32 else of_char (s ! i))"
  by (auto simp: lower_def lower_char_def Let_def)

text \<open>
  C7. The identity a cluster-apply trigger registers is the name
  \<^verbatim>\<open>{saas_file_name}-{env_name}\<close> lower-cased, before the truncation and before the
  timestamp. Lower-casing keeps the length and moves each of the letters A to Z and
  A-grave to Thorn (the code points 65 to 90 and 192 to 222 without 215) up by 32, leaving
  every other character. The constructor fails exactly when the setting
  \<^verbatim>\<open>saasDeployJobTemplate\<close> is missing, and then nothing is registered or applied;
  otherwise the name it returns is that identity for every timestamp and every truncation
  length, the truncated, timestamped name is the resource's \<^verbatim>\<open>metadata.name\<close> (the
  resource wrapper repeats it as its error label) and the rest of the resource depends
  neither on the timestamp nor on the length of the truncation. The registry after the
  call is the registry before it with the identity added, and a resource is applied
  exactly when the identity was not registered. So after a spec has been handled, a spec
  of the same saas file and environment handled later in the pass, at any clock reading,
  applies no resource and leaves the registry as it is.
\<close>

theorem tekton_identity_is_pre_timestamp:
  "(length (lower s) = length s
     \<and> (\<forall>i<length s.
          (of_char (lower s ! i) :: nat)
            = (if of_char (s ! i) \<in> {65..90::nat} \<union> ({192..222} - {215})
               then of_char (s ! i) + 32 else of_char (s ! i))))
   \<and> ((\<exists>err. construct_tekton_trigger_resource C a e u n integ iv ts = Inl err)
        = (settings C ''saasDeployJobTemplate'' = None))
   \<and> (construct_tekton_trigger_resource C a e u n integ iv ts = Inr (res, nm) \<longrightarrow>
         nm = lower (a @ ''-'' @ e)
       \<and> metadata_name (resource_body res)
           = take (UNIQUE_SAAS_FILE_ENV_COMBO_LEN C) (lower (a @ ''-'' @ e)) @ ''-'' @ ts
       \<and> error_details res = metadata_name (resource_body res)
       \<and> kind (resource_body res) = ''PipelineRun''
       \<and> (settings CB ''saasDeployJobTemplate'' = settings C ''saasDeployJobTemplate'' \<longrightarrow>
            (\<exists>resB. construct_tekton_trigger_resource CB a e u n integ iv ts' = Inr (resB, nm)
               \<and> resB\<lparr>resource_body := (resource_body resB)\<lparr>metadata_name := []\<rparr>,
                       error_details := []\<rparr>
                 = res\<lparr>resource_body := (resource_body res)\<lparr>metadata_name := []\<rparr>,
                       error_details := []\<rparr>)))
   \<and> (trigger_tekton C spec ns cl cu dry_run tt integ iv st = (r, st') \<longrightarrow>
        (settings C ''saasDeployJobTemplate'' = None \<longrightarrow>
           r = Inl (KeyError ''saasDeployJobTemplate'')
         \<and> already_triggered st' = already_triggered st \<and> events st' = events st)
      \<and> (construct_tekton_trigger_resource C (spec_saas_file_name spec) (spec_env_name spec)
           cu ns integ iv (utcnow C (clock_reads st)) = Inr (resA, nmA) \<longrightarrow>
           already_triggered st'
             = insert (lower (spec_saas_file_name spec @ ''-'' @ spec_env_name spec))
                 (already_triggered st)
         \<and> events st' = events st @ new_events st st'
         \<and> dispatch_calls (new_events st st')
             = (if lower (spec_saas_file_name spec @ ''-'' @ spec_env_name spec)
                     \<in> already_triggered st
                then []
                else [OsbCreate dry_run cl ns ''PipelineRun'' resA])))
   \<and> (trigger_tekton C spec ns cl cu dry_run tt integ iv st = (r, st') \<longrightarrow>
      settings C ''saasDeployJobTemplate'' \<noteq> None \<longrightarrow>
      spec_saas_file_name specB = spec_saas_file_name spec \<longrightarrow>
      spec_env_name specB = spec_env_name spec \<longrightarrow>
      already_triggered st' \<subseteq> already_triggered stB \<longrightarrow>
      trigger_tekton CB specB nsB clB urlB dry_runB ttB integB ivB stB = (rB, stB') \<longrightarrow>
        dispatch_calls (new_events stB stB') = []
      \<and> already_triggered stB' = already_triggered stB)"
proof (intro conjI impI allI)
  show "length (lower s) = length s" by (simp add: lower_def)
next
  fix i assume "i < length s"
  then show "(of_char (lower s ! i) :: nat)
            = (if of_char (s ! i) \<in> {65..90::nat} \<union> ({192..222} - {215})
               then of_char (s ! i) + 32 else of_char (s ! i))"
    by (rule lower_nth)
next
  show "(\<exists>err. construct_tekton_trigger_resource C a e u n integ iv ts = Inl err)
        = (settings C ''saasDeployJobTemplate'' = None)"
    by (simp add: construct_cases split: option.splits)
next
  assume c: "construct_tekton_trigger_resource C a e u n integ iv ts = Inr (res, nm)"
  from c show "nm = lower (a @ ''-'' @ e)"
    by (auto simp: construct_cases split: option.splits)
  from c show "metadata_name (resource_body res)
           = take (UNIQUE_SAAS_FILE_ENV_COMBO_LEN C) (lower (a @ ''-'' @ e)) @ ''-'' @ ts"
    by (auto simp: construct_cases split: option.splits)
  from c show "error_details res = metadata_name (resource_body res)"
    by (auto simp: construct_cases split: option.splits)
  from c show "kind (resource_body res) = ''PipelineRun''"
    by (auto simp: construct_cases split: option.splits)
  assume "settings CB ''saasDeployJobTemplate'' = settings C ''saasDeployJobTemplate''"
  with c show "\<exists>resB. construct_tekton_trigger_resource CB a e u n integ iv ts' = Inr (resB, nm)
               \<and> resB\<lparr>resource_body := (resource_body resB)\<lparr>metadata_name := []\<rparr>,
                       error_details := []\<rparr>
                 = res\<lparr>resource_body := (resource_body res)\<lparr>metadata_name := []\<rparr>,
                       error_details := []\<rparr>"
    by (auto simp: construct_cases split: option.splits)
next
  assume a: "trigger_tekton C spec ns cl cu dry_run tt integ iv st = (r, st')"
    and s: "settings C ''saasDeployJobTemplate'' = None"
  from trigger_tekton_no_setting(1) [OF a s]
  show "r = Inl (KeyError ''saasDeployJobTemplate'')" .
  from trigger_tekton_no_setting(2) [OF a s]
  show "already_triggered st' = already_triggered st" .
  from trigger_tekton_no_setting(3) [OF a s]
  show "events st' = events st" .
next
  assume a: "trigger_tekton C spec ns cl cu dry_run tt integ iv st = (r, st')"
    and c: "construct_tekton_trigger_resource C (spec_saas_file_name spec) (spec_env_name spec)
           cu ns integ iv (utcnow C (clock_reads st)) = Inr (resA, nmA)"
  from c have nm: "nmA = lower (spec_saas_file_name spec @ ''-'' @ spec_env_name spec)"
    by (auto simp: construct_cases split: option.splits)
  from trigger_tekton_registry(1) [OF a c] nm
  show "already_triggered st'
         = insert (lower (spec_saas_file_name spec @ ''-'' @ spec_env_name spec))
             (already_triggered st)" by simp
  from trigger_tekton_registry(2) [OF a c] nm obtain new where
    n: "events st' = events st @ new"
       "dispatch_calls new
           = (if lower (spec_saas_file_name spec @ ''-'' @ spec_env_name spec)
                   \<in> already_triggered st
              then []
              else [OsbCreate dry_run cl ns ''PipelineRun'' resA])"
    by auto
  from n(1) have e: "new_events st st' = new" by (rule new_events_append)
  show "events st' = events st @ new_events st st'" using n(1) e by simp
  show "dispatch_calls (new_events st st')
         = (if lower (spec_saas_file_name spec @ ''-'' @ spec_env_name spec)
                 \<in> already_triggered st
            then []
            else [OsbCreate dry_run cl ns ''PipelineRun'' resA])"
    using n(2) e by simp
next
  assume a: "trigger_tekton C spec ns cl cu dry_run tt integ iv st = (r, st')"
    and s: "settings C ''saasDeployJobTemplate'' \<noteq> None"
    and same: "spec_saas_file_name specB = spec_saas_file_name spec"
              "spec_env_name specB = spec_env_name spec"
    and sub: "already_triggered st' \<subseteq> already_triggered stB"
    and b: "trigger_tekton CB specB nsB clB urlB dry_runB ttB integB ivB stB = (rB, stB')"
  let ?nm = "lower (spec_saas_file_name spec @ ''-'' @ spec_env_name spec)"
  from s obtain resA where
    c: "construct_tekton_trigger_resource C (spec_saas_file_name spec) (spec_env_name spec)
           cu ns integ iv (utcnow C (clock_reads st)) = Inr (resA, ?nm)"
    by (auto simp: construct_cases split: option.splits)
  from trigger_tekton_registry(1) [OF a c] sub
  have reg: "?nm \<in> already_triggered stB" by auto
  have both: "dispatch_calls (new_events stB stB') = []
                \<and> already_triggered stB' = already_triggered stB"
  proof (cases "settings CB ''saasDeployJobTemplate''")
    case None
    from trigger_tekton_no_setting(2) [OF b None] trigger_tekton_no_setting(3) [OF b None]
    show ?thesis by (simp add: new_events_def)
  next
    case (Some t)
    then obtain resB where
      cB: "construct_tekton_trigger_resource CB (spec_saas_file_name specB)
             (spec_env_name specB) urlB nsB integB ivB (utcnow CB (clock_reads stB))
           = Inr (resB, ?nm)"
      using same by (auto simp: construct_cases split: option.splits)
    from trigger_tekton_registry(2) [OF b cB] reg obtain new where
      n: "events stB' = events stB @ new" "dispatch_calls new = []"
      by auto
    from n(1) have "new_events stB stB' = new" by (rule new_events_append)
    with n(2) have 1: "dispatch_calls (new_events stB stB') = []" by simp
    from trigger_tekton_registry(1) [OF b cB] reg
    have 2: "already_triggered stB' = already_triggered stB" by auto
    from 1 2 show ?thesis by simp
  qed
  from both show "dispatch_calls (new_events stB stB') = []" by simp
  from both show "already_triggered stB' = already_triggered stB" by simp
qed

lemma sample_tekton_first:
  "trigger_tekton example_collaborators (example_specs ! 2) ''pipelines'' ''appsre''
     ''https://console'' False ''t'' ''i'' ''v'' initial_state
   = (Inr False,
      \<lparr>already_triggered = {''app-stage''},
       events =
         [OsbCreate False ''appsre'' ''pipelines'' ''PipelineRun''
            (fst (projr (construct_tekton_trigger_resource example_collaborators ''App''
                    ''Stage'' ''https://console'' ''pipelines'' ''i'' ''v'' ''202101010000''))),
          UpdateState ''t'' (example_specs ! 2)],
       clock_reads = 1\<rparr>)"
  by (simp add: example_specs_def example_collaborators_def trigger_tekton_def
        construct_tekton_trigger_resource_def finish_trigger_def emit_def
        register_trigger_def initial_state_def lower_app_stage Let_def)

theorem tekton_identity_is_pre_timestamp_witness:
  "(of_char (lower [CHR 0x41, CHR 0xC4, CHR 0xD7] ! 1) :: nat) = 228
   \<and> metadata_name (resource_body (fst (projr (construct_tekton_trigger_resource
       example_collaborators ''App'' ''Stage'' ''https://console'' ''pipelines'' ''i'' ''v''
       ''202101010000''))))
     = ''app-stage-202101010000''
   \<and> already_triggered (snd (trigger_tekton example_collaborators (example_specs ! 2)
        ''pipelines'' ''appsre'' ''https://console'' False ''t'' ''i'' ''v'' initial_state))
     = {''app-stage''}
   \<and> dispatch_calls (new_events
        (snd (trigger_tekton example_collaborators (example_specs ! 2)
                ''pipelines'' ''appsre'' ''https://console'' False ''t'' ''i'' ''v''
                initial_state))
        (snd (trigger_tekton example_collaborators (example_specs ! 2)
                ''pipelines'' ''appsre'' ''https://console'' False ''t'' ''i'' ''v''
                (snd (trigger_tekton example_collaborators (example_specs ! 2)
                        ''pipelines'' ''appsre'' ''https://console'' False ''t'' ''i'' ''v''
                        initial_state))))) = []"
proof -
  let ?s = "example_specs ! 2"
  let ?c = "construct_tekton_trigger_resource example_collaborators ''App'' ''Stage''
              ''https://console'' ''pipelines'' ''i'' ''v'' ''202101010000''"
  let ?st1 = "snd (trigger_tekton example_collaborators ?s ''pipelines'' ''appsre''
                     ''https://console'' False ''t'' ''i'' ''v'' initial_state)"
  let ?st2 = "snd (trigger_tekton example_collaborators ?s ''pipelines'' ''appsre''
                     ''https://console'' False ''t'' ''i'' ''v'' ?st1)"
  note T = tekton_identity_is_pre_timestamp
             [where C = example_collaborators and spec = ?s and ns = "''pipelines''"
                and cl = "''appsre''" and cu = "''https://console''" and dry_run = False
                and tt = "''t''" and integ = "''i''" and iv = "''v''" and st = initial_state
                and r = "Inr False" and st' = ?st1
                and s = "[CHR 0x41, CHR 0xC4, CHR 0xD7]"
                and a = "''App''" and e = "''Stage''" and u = "''https://console''"
                and n = "''pipelines''" and ts = "''202101010000''"
                and ts' = "''202101010001''"
                and res = "fst (projr ?c)" and nm = "''app-stage''"
                and resA = "fst (projr ?c)" and nmA = "''app-stage''"
                and specB = ?s and CB = example_collaborators and nsB = "''pipelines''"
                and clB = "''appsre''" and urlB = "''https://console''" and dry_runB = False
                and ttB = "''t''" and integB = "''i''" and ivB = "''v''" and stB = ?st1
                and rB = "fst (trigger_tekton example_collaborators ?s ''pipelines''
                     ''appsre'' ''https://console'' False ''t'' ''i'' ''v'' ?st1)"
                and stB' = ?st2]
  have run1: "trigger_tekton example_collaborators ?s ''pipelines'' ''appsre''
                ''https://console'' False ''t'' ''i'' ''v'' initial_state = (Inr False, ?st1)"
    by (simp add: sample_tekton_first)
  have runB: "trigger_tekton example_collaborators ?s ''pipelines'' ''appsre''
                ''https://console'' False ''t'' ''i'' ''v'' ?st1
              = (fst (trigger_tekton example_collaborators ?s ''pipelines''
                     ''appsre'' ''https://console'' False ''t'' ''i'' ''v'' ?st1), ?st2)"
    by simp
  have con: "?c = Inr (fst (projr ?c), ''app-stage'')"
    by (simp add: example_construct)
  have con': "construct_tekton_trigger_resource example_collaborators
                (spec_saas_file_name ?s) (spec_env_name ?s) ''https://console'' ''pipelines''
                ''i'' ''v'' (utcnow example_collaborators (clock_reads initial_state))
              = Inr (fst (projr ?c), ''app-stage'')"
  proof -
    have "utcnow example_collaborators (clock_reads initial_state) = ''202101010000''"
      by (simp add: example_collaborators_def initial_state_def)
    then show ?thesis by (simp add: example_specs_def example_construct)
  qed
  have nm: "lower (spec_saas_file_name ?s @ ''-'' @ spec_env_name ?s) = ''app-stage''"
    by (simp add: example_specs_def lower_app_stage)
  have ex: "settings example_collaborators ''saasDeployJobTemplate'' \<noteq> None"
    by (simp add: example_settings)
  have len: "(1::nat) < length [CHR 0x41, CHR 0xC4, CHR 0xD7]" by simp
  have l: "(of_char (lower [CHR 0x41, CHR 0xC4, CHR 0xD7] ! 1) :: nat) = 228"
    using T [THEN conjunct1, THEN conjunct2, rule_format, OF len] by simp
  have a: "metadata_name (resource_body (fst (projr ?c))) = ''app-stage-202101010000''"
    using T [THEN conjunct2, THEN conjunct2, THEN conjunct1, rule_format, OF con,
             THEN conjunct2, THEN conjunct1]
    by (simp add: lower_app_stage example_collaborators_def)
  have b: "already_triggered ?st1 = {''app-stage''}"
  proof -
    from T [THEN conjunct2, THEN conjunct2, THEN conjunct2, THEN conjunct1, rule_format,
            OF run1, THEN conjunct2, rule_format, OF con', THEN conjunct1]
    have "already_triggered ?st1
            = insert (lower (spec_saas_file_name ?s @ ''-'' @ spec_env_name ?s))
                (already_triggered initial_state)" .
    then have "already_triggered ?st1 = insert ''app-stage'' (already_triggered initial_state)"
      by (simp only: nm)
    then show ?thesis by (simp add: initial_state_def)
  qed
  have c: "dispatch_calls (new_events ?st1 ?st2) = []"
    using T [THEN conjunct2, THEN conjunct2, THEN conjunct2, THEN conjunct2, rule_format,
             OF run1 ex refl refl subset_refl runB, THEN conjunct1] .
  show ?thesis by (intro conjI l a b c)
qed

section \<open>Properties of the deployment state and the approvals\<close>

lemma py_in_set: "py_in x xs = (x \<in> set xs)"
  by (induction xs) auto

lemma json_eq_list: "json_eq (JList xs) (JList ys) = list_all2 json_eq xs ys"
  by (simp add: list_all2_map1)

lemma json_eq_obj: "json_eq (JObj a) (JObj b) = fmrel json_eq a b"
  by (simp add: fmap.rel_map)

lemma json_eq_refl: "json_eq x x"
proof (induction x)
  case (JList xs)
  then show ?case by (simp add: list_all2_map1 list.rel_refl_strong)
next
  case (JObj a)
  then show ?case by (simp add: fmap.rel_map fmap.rel_refl_strong)
qed simp_all

lemma json_eq_sym: "json_eq x y = json_eq y x"
proof (induction x arbitrary: y)
  case (JList xs)
  show ?case
  proof (cases y)
    case (JList ys)
    have "list_all2 json_eq xs ys = list_all2 json_eq ys xs"
      unfolding list_all2_conv_all_nth
      using JList.IH [OF nth_mem] by auto
    then show ?thesis using JList by (simp add: list_all2_map1)
  qed simp_all
next
  case (JObj a)
  show ?case
  proof (cases y)
    case (JObj b)
    have "fmrel json_eq a b = fmrel json_eq b a"
      unfolding fmrel_iff
    proof (intro iff_allI)
      fix k
      show "rel_option json_eq (fmlookup a k) (fmlookup b k)
              = rel_option json_eq (fmlookup b k) (fmlookup a k)"
        using JObj.IH [OF fmran'I]
        by (cases "fmlookup a k"; cases "fmlookup b k") auto
    qed
    then show ?thesis using JObj by (simp add: fmap.rel_map)
  qed simp_all
next
  case JNull then show ?case by (cases y) auto
next
  case (JBool b) then show ?case by (cases y) auto
next
  case (JInt i) then show ?case by (cases y) auto
next
  case (JFloat q) then show ?case by (cases y) auto
next
  case (JInf s) then show ?case by (cases y) auto
next
  case (JNaN a) then show ?case by (cases y) auto
next
  case (JStr s) then show ?case by (cases y) auto
qed

lemma json_eq_number:
  "number x \<noteq> None \<or> number y \<noteq> None \<Longrightarrow> json_eq x y = (number x = number y)"
  by (cases x; cases y) auto

lemma json_eq_trans: "json_eq x y \<Longrightarrow> json_eq y z \<Longrightarrow> json_eq x z"
proof (induction x arbitrary: y z)
  case (JList xs)
  from JList.prems(1) obtain ys where y: "y = JList ys" by (cases y) auto
  from JList.prems(2) y obtain zs where z: "z = JList zs" by (cases z) auto
  from JList.prems y z have a: "list_all2 json_eq xs ys" and b: "list_all2 json_eq ys zs"
    by (simp_all add: list_all2_map1)
  have "list_all2 json_eq xs zs"
    unfolding list_all2_conv_all_nth
  proof (intro conjI allI impI)
    show "length xs = length zs" using a b by (simp add: list_all2_lengthD)
    fix i assume i: "i < length xs"
    with a b have "json_eq (xs ! i) (ys ! i)" "json_eq (ys ! i) (zs ! i)"
      by (simp_all add: list_all2_conv_all_nth)
    with JList.IH [OF nth_mem [OF i]] show "json_eq (xs ! i) (zs ! i)" by blast
  qed
  then show ?case using z by (simp add: list_all2_map1)
next
  case (JObj a)
  from JObj.prems(1) obtain b where y: "y = JObj b" by (cases y) auto
  from JObj.prems(2) y obtain c where z: "z = JObj c" by (cases z) auto
  from JObj.prems y z have ab: "fmrel json_eq a b" and bc: "fmrel json_eq b c"
    by (simp_all add: fmap.rel_map)
  have "fmrel json_eq a c"
    unfolding fmrel_iff
  proof
    fix k
    from ab bc have 1: "rel_option json_eq (fmlookup a k) (fmlookup b k)"
      and 2: "rel_option json_eq (fmlookup b k) (fmlookup c k)"
      by (simp_all add: fmrel_iff)
    show "rel_option json_eq (fmlookup a k) (fmlookup c k)"
      using 1 2 JObj.IH [OF fmran'I]
      by (cases "fmlookup a k"; cases "fmlookup b k"; cases "fmlookup c k") auto
  qed
  then show ?case using z by (simp add: fmap.rel_map)
next
  case JNull then show ?case by (cases y; cases z) auto
next
  case (JBool b) then show ?case by (cases y; cases z) auto
next
  case (JInt i) then show ?case by (cases y; cases z) auto
next
  case (JFloat q) then show ?case by (cases y; cases z) auto
next
  case (JInf s) then show ?case by (cases y; cases z) auto
next
  case (JNaN a) then show ?case by (cases y; cases z) auto
next
  case (JStr s) then show ?case by (cases y; cases z) auto
qed

lemma entry_eq_refl: "entry_eq c c"
  by (simp add: entry_eq_def json_eq_refl del: json_eq.simps)

lemma entry_in_set: "entry_in x xs = (\<exists>c \<in> set xs. entry_eq c x)"
  by (induction xs) auto

lemma compute_diffs_filter:
  "compute_diffs current_state desired_state
     = filter (\<lambda>s. \<forall>c \<in> set current_state. \<not> entry_eq c s) desired_state"
  by (induction desired_state) (simp_all add: entry_in_set)

text \<open>
  C6. The diffs are exactly the entries of the desired state that have no equal entry in
  the current state, in the order of the desired state; so the diffs of a state against
  itself are empty. Equal is Python's \<^verbatim>\<open>==\<close> on the dicts: every key but \<^verbatim>\<open>parameters\<close>
  holds the same value on both sides, and the parameters have the same keys with equal
  values, where a boolean, an integer and a float are equal when they are the same number,
  a NaN only to itself, lists item by item and dicts key by key. This equality is
  reflexive, symmetric and transitive.
\<close>

theorem compute_diffs_set_difference:
  "compute_diffs current_state desired_state
     = filter (\<lambda>s. \<forall>c \<in> set current_state. \<not> entry_eq c s) desired_state
   \<and> (\<forall>s. s \<in> set (compute_diffs current_state desired_state)
            = (s \<in> set desired_state \<and> (\<forall>c \<in> set current_state. \<not> entry_eq c s)))
   \<and> compute_diffs S S = []
   \<and> entry_eq c d
       = (c\<lparr>parameters := fmempty\<rparr> = d\<lparr>parameters := fmempty\<rparr>
          \<and> fmrel json_eq (parameters c) (parameters d))
   \<and> (number x \<noteq> None \<or> number y \<noteq> None \<longrightarrow> json_eq x y = (number x = number y))
   \<and> number (JBool b) = Some (if b then 1 else 0)
   \<and> number (JInt i) = Some (of_int i)
   \<and> number (JFloat q) = Some q
   \<and> (number x = None \<longrightarrow> number y = None \<longrightarrow>
        json_eq x y
          = (case (x, y) of
               (JList xs, JList ys) \<Rightarrow> list_all2 json_eq xs ys
             | (JObj m, JObj n) \<Rightarrow> fmrel json_eq m n
             | _ \<Rightarrow> x = y))
   \<and> json_eq x x
   \<and> json_eq x y = json_eq y x
   \<and> (json_eq x y \<longrightarrow> json_eq y z \<longrightarrow> json_eq x z)"
proof (intro conjI allI impI)
  show 1: "compute_diffs current_state desired_state
     = filter (\<lambda>s. \<forall>c \<in> set current_state. \<not> entry_eq c s) desired_state"
    by (rule compute_diffs_filter)
  fix s
  show "s \<in> set (compute_diffs current_state desired_state)
            = (s \<in> set desired_state \<and> (\<forall>c \<in> set current_state. \<not> entry_eq c s))"
    unfolding 1 by simp
next
  show "compute_diffs S S = []"
    unfolding compute_diffs_filter using entry_eq_refl by (auto simp: filter_empty_conv)
next
  show "entry_eq c d
       = (c\<lparr>parameters := fmempty\<rparr> = d\<lparr>parameters := fmempty\<rparr>
          \<and> fmrel json_eq (parameters c) (parameters d))"
    by (cases c; cases d) (auto simp: entry_eq_def fmap.rel_map)
next
  assume "number x \<noteq> None \<or> number y \<noteq> None"
  then show "json_eq x y = (number x = number y)" by (rule json_eq_number)
next
  show "number (JBool b) = Some (if b then 1 else 0)" by simp
  show "number (JInt i) = Some (of_int i)" by simp
  show "number (JFloat q) = Some q" by simp
next
  assume "number x = None" "number y = None"
  then show "json_eq x y
          = (case (x, y) of
               (JList xs, JList ys) \<Rightarrow> list_all2 json_eq xs ys
             | (JObj m, JObj n) \<Rightarrow> fmrel json_eq m n
             | _ \<Rightarrow> x = y)"
    by (cases x; cases y) (auto simp: list_all2_map1 fmap.rel_map)
next
  show "json_eq x x" by (rule json_eq_refl)
  show "json_eq x y = json_eq y x" by (rule json_eq_sym)
next
  assume "json_eq x y" "json_eq y z"
  then show "json_eq x z" by (rule json_eq_trans)
qed

lemma example_parameters_eq:
  "fmrel json_eq (example_parameters a b) (example_parameters c d)
     = (json_eq a c \<and> json_eq b d)"
  by (auto simp: example_parameters_def fmrel_code simp del: json_eq.simps)

theorem compute_diffs_set_difference_witness:
  "compute_diffs [example_current] [example_current, example_desired] = [example_desired]
   \<and> compute_diffs [example_current, example_desired] [example_current, example_desired] = []
   \<and> compute_diffs
       [example_current\<lparr>parameters := example_parameters (JInt 1) (JList [JFloat 1, JNaN 0])\<rparr>]
       [example_current\<lparr>parameters := example_parameters (JBool True) (JList [JInt 1, JNaN 0])\<rparr>,
        example_current\<lparr>parameters := example_parameters (JStr ''1'') (JList [JInt 1, JNaN 0])\<rparr>]
     = [example_current\<lparr>parameters := example_parameters (JStr ''1'') (JList [JInt 1, JNaN 0])\<rparr>]"
proof -
  note T = compute_diffs_set_difference
  have ne: "\<not> entry_eq example_current example_desired"
    by (simp add: T [THEN conjunct2, THEN conjunct2, THEN conjunct2, THEN conjunct1]
          example_desired_def example_current_def)
  have rf: "entry_eq c c" for c
    by (simp add: T [THEN conjunct2, THEN conjunct2, THEN conjunct2, THEN conjunct1]
          fmap.rel_refl_strong json_eq_refl)
  have a: "compute_diffs [example_current] [example_current, example_desired]
             = [example_desired]"
    using ne rf by (simp add: T [THEN conjunct1])
  have b: "compute_diffs [example_current, example_desired]
             [example_current, example_desired] = []"
    by (rule T [THEN conjunct2, THEN conjunct2, THEN conjunct1])
  have c: "compute_diffs
       [example_current\<lparr>parameters := example_parameters (JInt 1) (JList [JFloat 1, JNaN 0])\<rparr>]
       [example_current\<lparr>parameters := example_parameters (JBool True) (JList [JInt 1, JNaN 0])\<rparr>,
        example_current\<lparr>parameters := example_parameters (JStr ''1'') (JList [JInt 1, JNaN 0])\<rparr>]
     = [example_current\<lparr>parameters := example_parameters (JStr ''1'') (JList [JInt 1, JNaN 0])\<rparr>]"
    by (simp add: T [THEN conjunct1]
          T [THEN conjunct2, THEN conjunct2, THEN conjunct2, THEN conjunct1]
          example_parameters_eq)
  show ?thesis by (intro conjI a b c)
qed

lemma compare_with_current_set:
  "compare_with_current d current_state acc
     = acc \<union> {url d @ ''/compare/'' @ ref c @ ''...'' @ ref d | c.
               c \<in> set current_state
             \<and> saas_file_name d = saas_file_name c
             \<and> resource_template_name d = resource_template_name c
             \<and> environment d = environment c
             \<and> cluster d = cluster c
             \<and> namespace d = namespace c
             \<and> ref d \<noteq> ref c}"
proof (induction current_state arbitrary: acc)
  case Nil
  then show ?case by simp
next
  case (Cons c cs)
  show ?case
    unfolding compare_with_current.simps Cons.IH
    by (auto simp del: compare_with_current.simps)
qed

lemma filter_empty_path_changed:
  "(filter (\<lambda>c. endswith c (saas_file_path d)) changed_paths = []) = (\<not> path_changed changed_paths d)"
  by (auto simp: path_changed_def filter_empty_conv)

lemma compare_desired_set:
  "compare_desired current_state desired_state changed_paths acc
     = acc \<union> {url d @ ''/compare/'' @ ref c @ ''...'' @ ref d | d c.
               d \<in> set desired_state
             \<and> path_changed changed_paths d
             \<and> c \<in> set current_state
             \<and> saas_file_name d = saas_file_name c
             \<and> resource_template_name d = resource_template_name c
             \<and> environment d = environment c
             \<and> cluster d = cluster c
             \<and> namespace d = namespace c
             \<and> ref d \<noteq> ref c}"
proof (induction desired_state arbitrary: acc)
  case Nil
  then show ?case by simp
next
  case (Cons d ds)
  show ?case
  proof (cases "path_changed changed_paths d")
    case True
    then show ?thesis
      unfolding compare_desired.simps Let_def filter_empty_path_changed Cons.IH
        compare_with_current_set
      by (simp only: if_False simp_thms) (auto; blast)
  next
    case False
    then show ?thesis
      unfolding compare_desired.simps Let_def filter_empty_path_changed Cons.IH
      by (simp only: if_True simp_thms) auto
  qed
qed


text \<open>
  C8 (as amended). The comparison URLs are exactly the strings
  \<^verbatim>\<open>{url}/compare/{old ref}...{new ref}\<close> for every desired entry whose saas file path is
  a suffix of some changed path and every current entry that agrees with it on saas file
  name, resource template name, environment, cluster and namespace and has another ref;
  desired entries whose path is a suffix of no changed path contribute nothing; and one such
  pair alone yields exactly its URL.
\<close>

theorem collect_compare_diffs_urls:
  "collect_compare_diffs current_state desired_state changed_paths
     = {url d @ ''/compare/'' @ ref c @ ''...'' @ ref d | d c.
          d \<in> set desired_state
        \<and> path_changed changed_paths d
        \<and> c \<in> set current_state
        \<and> saas_file_name d = saas_file_name c
        \<and> resource_template_name d = resource_template_name c
        \<and> environment d = environment c
        \<and> cluster d = cluster c
        \<and> namespace d = namespace c
        \<and> ref d \<noteq> ref c}
   \<and> collect_compare_diffs current_state desired_state changed_paths
     = collect_compare_diffs current_state
         (filter (path_changed changed_paths) desired_state) changed_paths
   \<and> (path_changed changed_paths d0 \<longrightarrow>
        saas_file_name d0 = saas_file_name c0 \<longrightarrow>
        resource_template_name d0 = resource_template_name c0 \<longrightarrow>
        environment d0 = environment c0 \<longrightarrow>
        cluster d0 = cluster c0 \<longrightarrow>
        namespace d0 = namespace c0 \<longrightarrow>
        ref d0 \<noteq> ref c0 \<longrightarrow>
        collect_compare_diffs [c0] [d0] changed_paths
          = {url d0 @ ''/compare/'' @ ref c0 @ ''...'' @ ref d0})"
proof (intro conjI impI)
  show "collect_compare_diffs current_state desired_state changed_paths
     = {url d @ ''/compare/'' @ ref c @ ''...'' @ ref d | d c.
          d \<in> set desired_state
        \<and> path_changed changed_paths d
        \<and> c \<in> set current_state
        \<and> saas_file_name d = saas_file_name c
        \<and> resource_template_name d = resource_template_name c
        \<and> environment d = environment c
        \<and> cluster d = cluster c
        \<and> namespace d = namespace c
        \<and> ref d \<noteq> ref c}"
    by (simp add: collect_compare_diffs_def compare_desired_set)
next
  show "collect_compare_diffs current_state desired_state changed_paths
     = collect_compare_diffs current_state
         (filter (path_changed changed_paths) desired_state) changed_paths"
    unfolding collect_compare_diffs_def compare_desired_set by auto
next
  assume "path_changed changed_paths d0" "saas_file_name d0 = saas_file_name c0"
    "resource_template_name d0 = resource_template_name c0"
    "environment d0 = environment c0" "cluster d0 = cluster c0"
    "namespace d0 = namespace c0" "ref d0 \<noteq> ref c0"
  then show "collect_compare_diffs [c0] [d0] changed_paths
          = {url d0 @ ''/compare/'' @ ref c0 @ ''...'' @ ref d0}"
    unfolding collect_compare_diffs_def compare_desired_set by auto
qed

lemma example_path_changed:
  "path_changed [''data/services/app/cicd/saas.yaml''] example_desired"
  by (simp add: path_changed_def endswith_def example_desired_def example_current_def)

theorem collect_compare_diffs_urls_witness:
  "collect_compare_diffs [example_current] [example_desired]
     [''data/services/app/cicd/saas.yaml'']
   = {''https://git/example/compare/abc...def''}"
  using collect_compare_diffs_urls
          [where ?d0.0 = example_desired and ?c0.0 = example_current
             and changed_paths = "[''data/services/app/cicd/saas.yaml'']"]
        example_path_changed
  by (simp add: example_desired_def example_current_def)

text \<open>
  As the specification words it, the property fails: the path of the sample entry is not among the changed paths
  (the merge request names the file from the root of the repository), and its URL is
  collected all the same.
\<close>

theorem path_not_among_changed_paths_counterexample:
  "saas_file_path example_desired \<notin> set [''data/services/app/cicd/saas.yaml'']
   \<and> collect_compare_diffs [example_current] [example_desired]
        [''data/services/app/cicd/saas.yaml'']
      = {''https://git/example/compare/abc...def''}"
  by (simp add: collect_compare_diffs_def endswith_def example_desired_def example_current_def)

lemma pop_entry_eq: "(pop_entry c = pop_entry d) = same_structure c d"
  by (auto simp: pop_entry_def pop_definitions_def same_structure_def)

lemma valid_diff_nth:
  "valid_diff cs ds
     = (length cs = length ds \<and> (\<forall>i<length cs. same_structure (cs ! i) (ds ! i)))"
  by (auto simp: valid_diff_def list_eq_iff_nth_eq pop_entry_eq)

text \<open>
  C3. \<^verbatim>\<open>valid_diff\<close> is true exactly when the two states, with \<^verbatim>\<open>ref\<close>,
  \<^verbatim>\<open>parameters\<close>, \<^verbatim>\<open>disable\<close> and \<^verbatim>\<open>use_channel_in_image_tag\<close> removed from every
  entry, are equal lists: they have the same length and agree, position by position, on
  every other field. So states of different lengths are never a valid diff; a state against
  itself is one, also after any change of the four fields in any entries, in particular of
  the \<^verbatim>\<open>disable\<close> flag of one target; and a difference in cluster, namespace,
  environment, resource template (name or url), managed resource types or image patterns at
  some position makes it false. The flag that \<^verbatim>\<open>collect_state\<close> records for a target is
  \<^verbatim>\<open>delete\<close>, which is not popped: a change of it makes the result false.
\<close>

theorem valid_diff_strips_trivial_fields:
  "valid_diff cs ds = (map pop_entry cs = map pop_entry ds)
   \<and> valid_diff cs ds
       = (length cs = length ds \<and> (\<forall>i<length cs. same_structure (cs ! i) (ds ! i)))
   \<and> (length cs \<noteq> length ds \<longrightarrow> \<not> valid_diff cs ds)
   \<and> valid_diff cs cs
   \<and> valid_diff cs
        (map (\<lambda>c. c\<lparr>ref := r c, parameters := p c, disable := e c,
                     saas_file_definitions :=
                       (saas_file_definitions c)\<lparr>use_channel_in_image_tag := u c\<rparr>\<rparr>) cs)
   \<and> (i < length cs \<longrightarrow> valid_diff cs (cs[i := (cs ! i)\<lparr>disable := b\<rparr>]))
   \<and> (i < length cs \<longrightarrow> delete (cs ! i) \<noteq> b' \<longrightarrow>
        \<not> valid_diff cs (cs[i := (cs ! i)\<lparr>delete := b'\<rparr>]))
   \<and> (i < length cs \<longrightarrow> i < length ds \<longrightarrow>
        (cluster (cs ! i) \<noteq> cluster (ds ! i)
         \<or> namespace (cs ! i) \<noteq> namespace (ds ! i)
         \<or> environment (cs ! i) \<noteq> environment (ds ! i)
         \<or> resource_template_name (cs ! i) \<noteq> resource_template_name (ds ! i)
         \<or> url (cs ! i) \<noteq> url (ds ! i)
         \<or> managed_resource_types (saas_file_definitions (cs ! i))
              \<noteq> managed_resource_types (saas_file_definitions (ds ! i))
         \<or> image_patterns (saas_file_definitions (cs ! i))
              \<noteq> image_patterns (saas_file_definitions (ds ! i))) \<longrightarrow>
        \<not> valid_diff cs ds)"
proof (intro conjI impI)
  show "valid_diff cs ds = (map pop_entry cs = map pop_entry ds)"
    by (simp add: valid_diff_def)
  show "valid_diff cs ds
       = (length cs = length ds \<and> (\<forall>i<length cs. same_structure (cs ! i) (ds ! i)))"
    by (rule valid_diff_nth)
  show "valid_diff cs cs" by (simp add: valid_diff_def)
  show "valid_diff cs
        (map (\<lambda>c. c\<lparr>ref := r c, parameters := p c, disable := e c,
                     saas_file_definitions :=
                       (saas_file_definitions c)\<lparr>use_channel_in_image_tag := u c\<rparr>\<rparr>) cs)"
    by (simp add: valid_diff_nth same_structure_def)
next
  assume "length cs \<noteq> length ds"
  then show "\<not> valid_diff cs ds" by (simp add: valid_diff_nth)
next
  assume "i < length cs"
  then show "valid_diff cs (cs[i := (cs ! i)\<lparr>disable := b\<rparr>])"
    by (auto simp: valid_diff_nth same_structure_def nth_list_update)
next
  assume "i < length cs" "delete (cs ! i) \<noteq> b'"
  then have "\<not> same_structure (cs ! i) ((cs[i := (cs ! i)\<lparr>delete := b'\<rparr>]) ! i)"
    by (simp add: same_structure_def)
  with \<open>i < length cs\<close> show "\<not> valid_diff cs (cs[i := (cs ! i)\<lparr>delete := b'\<rparr>])"
    by (auto simp: valid_diff_nth)
next
  assume "i < length cs" "i < length ds"
    and "cluster (cs ! i) \<noteq> cluster (ds ! i)
         \<or> namespace (cs ! i) \<noteq> namespace (ds ! i)
         \<or> environment (cs ! i) \<noteq> environment (ds ! i)
         \<or> resource_template_name (cs ! i) \<noteq> resource_template_name (ds ! i)
         \<or> url (cs ! i) \<noteq> url (ds ! i)
         \<or> managed_resource_types (saas_file_definitions (cs ! i))
              \<noteq> managed_resource_types (saas_file_definitions (ds ! i))
         \<or> image_patterns (saas_file_definitions (cs ! i))
              \<noteq> image_patterns (saas_file_definitions (ds ! i))"
  then have "\<not> same_structure (cs ! i) (ds ! i)"
    by (auto simp: same_structure_def)
  with \<open>i < length cs\<close> show "\<not> valid_diff cs ds"
    by (auto simp: valid_diff_nth)
qed

theorem valid_diff_strips_trivial_fields_witness:
  "valid_diff [example_current, example_desired]
     [example_current, example_desired\<lparr>disable := Some (Some True)\<rparr>]
   \<and> \<not> valid_diff [example_current] [example_current\<lparr>namespace := ''app-stage''\<rparr>]
   \<and> \<not> valid_diff [example_current] [example_current, example_desired]"
proof (intro conjI)
  note T = valid_diff_strips_trivial_fields
  from T [where cs = "[example_current, example_desired]" and i = 1
            and b = "Some (Some True)"]
  have "1 < length [example_current, example_desired] \<longrightarrow>
        valid_diff [example_current, example_desired]
          ([example_current, example_desired]
             [1 := ([example_current, example_desired] ! 1)\<lparr>disable := Some (Some True)\<rparr>])"
    by blast
  then show "valid_diff [example_current, example_desired]
     [example_current, example_desired\<lparr>disable := Some (Some True)\<rparr>]"
    by simp
  let ?ds = "[example_current\<lparr>namespace := ''app-stage''\<rparr>]"
  from T [where cs = "[example_current]" and i = 0 and ds = ?ds]
  have "0 < length [example_current] \<longrightarrow> 0 < length ?ds \<longrightarrow>
        (cluster ([example_current] ! 0) \<noteq> cluster (?ds ! 0)
         \<or> namespace ([example_current] ! 0) \<noteq> namespace (?ds ! 0)
         \<or> environment ([example_current] ! 0) \<noteq> environment (?ds ! 0)
         \<or> resource_template_name ([example_current] ! 0) \<noteq> resource_template_name (?ds ! 0)
         \<or> url ([example_current] ! 0) \<noteq> url (?ds ! 0)
         \<or> managed_resource_types (saas_file_definitions ([example_current] ! 0))
              \<noteq> managed_resource_types (saas_file_definitions (?ds ! 0))
         \<or> image_patterns (saas_file_definitions ([example_current] ! 0))
              \<noteq> image_patterns (saas_file_definitions (?ds ! 0))) \<longrightarrow>
        \<not> valid_diff [example_current] ?ds"
    by blast
  then show "\<not> valid_diff [example_current] ?ds"
    by (simp add: example_current_def)
  from T [where cs = "[example_current]" and ds = "[example_current, example_desired]"]
  have "length [example_current] \<noteq> length [example_current, example_desired] \<longrightarrow>
        \<not> valid_diff [example_current] [example_current, example_desired]"
    by blast
  then show "\<not> valid_diff [example_current] [example_current, example_desired]"
    by simp
qed


lemma lgtm_line_step:
  assumes "lgtm_inv s"
  shows "lgtm_triple (lgtm_line line s) = approval_step (lgtm_triple s) (parse_command line)"
    and "lgtm_inv (lgtm_line line s)"
  using assms
  by (auto simp: lgtm_line_def lgtm_triple_def lgtm_inv_def Let_def)

lemma lgtm_lines_fold:
  assumes "lgtm_inv s"
  shows "lgtm_triple (fold lgtm_line lines s)
           = foldl approval_step (lgtm_triple s) (map parse_command lines)
         \<and> lgtm_inv (fold lgtm_line lines s)"
  using assms
proof (induction lines arbitrary: s)
  case Nil
  then show ?case by simp
next
  case (Cons l ls)
  from lgtm_line_step [OF Cons.prems, of l] Cons.IH [of "lgtm_line l s"]
  show ?case by (simp del: parse_command.simps)
qed

lemma lgtm_comments_fold:
  assumes "lgtm_inv s"
  shows "lgtm_triple (lgtm_comments owners cs s)
           = foldl approval_step (lgtm_triple s)
               (map parse_command
                  (concat (map (\<lambda>c. split_on (CHR 0x0A) (body c))
                             (filter (\<lambda>c. username c \<in> set owners) cs))))"
  using assms
proof (induction cs arbitrary: s)
  case Nil
  then show ?case by simp
next
  case (Cons c cs)
  show ?case
  proof (cases "username c \<in> set owners")
    case True
    let ?s = "fold lgtm_line (split_on (CHR 0x0A) (body c)) s"
    from lgtm_lines_fold [OF Cons.prems, of "split_on (CHR 0x0A) (body c)"]
    have 1: "lgtm_triple ?s = foldl approval_step (lgtm_triple s)
                 (map parse_command (split_on (CHR 0x0A) (body c)))"
      and 2: "lgtm_inv ?s" by simp_all
    from Cons.IH [OF 2] 1 True show ?thesis
      by (simp add: py_in_set del: parse_command.simps)
  next
    case False
    with Cons.IH [OF Cons.prems] show ?thesis
      by (simp add: py_in_set del: parse_command.simps)
  qed
qed

lemma check_if_lgtm_machine:
  "check_if_lgtm (Some owners) comments = evaluate_approval replace_at owners comments"
proof (cases "owners = []")
  case True
  then show ?thesis by (simp add: check_if_lgtm_def evaluate_approval_def)
next
  case False
  let ?s0 = "\<lparr>approved = False, hold = False, lgtm_comment = False\<rparr>"
  have inv: "lgtm_inv ?s0" by (simp add: lgtm_inv_def)
  have t0: "lgtm_triple ?s0 = (False, False, False)" by (simp add: lgtm_triple_def)
  let ?r = "lgtm_comments (map replace_at owners) (sort_key created_at comments) ?s0"
  let ?m = "foldl approval_step (False, False, False)
              (map parse_command
                 (concat (map (\<lambda>c. split_on (CHR 0x0A) (body c))
                            (filter (\<lambda>c. username c \<in> set (map replace_at owners))
                               (sort_key created_at comments)))))"
  obtain a h l where m: "?m = (a, h, l)" by (cases ?m)
  from lgtm_comments_fold [OF inv, of "map replace_at owners" "sort_key created_at comments"]
  have "lgtm_triple ?r = (a, h, l)" by (simp only: t0 m)
  then have r: "approved ?r = a" "hold ?r = h" by (simp_all add: lgtm_triple_def)
  have 1: "check_if_lgtm (Some owners) comments = (a, h)"
    using False r by (simp add: check_if_lgtm_def Let_def)
  have 2: "evaluate_approval replace_at owners comments = (a, h)"
    using False m by (simp add: evaluate_approval_def Let_def del: parse_command.simps)
  from 1 2 show ?thesis by simp
qed

lemma replace_at_leading:
  "CHR ''@'' \<notin> set (tl u) \<Longrightarrow> replace_at u = strip_leading_at u"
  by (cases u) (auto simp: replace_at_def strip_leading_at_def filter_id_conv)

lemma owner_identifier_normalised:
  "CHR ''@'' \<notin> set u \<Longrightarrow>
     replace_at (owner_identifier u t) = u \<and> strip_leading_at (owner_identifier u t) = u"
  by (cases u) (auto simp: owner_identifier_def replace_at_def strip_leading_at_def
                       filter_id_conv)

text \<open>
  \<^verbatim>\<open>check_if_lgtm\<close> is the approval machine of the specification, fed with the comments
  sorted by creation time, when every \<^verbatim>\<open>@\<close> is removed from an approver identifier. No
  approvers (none, or an empty list) give (false, false). When no approver identifier has
  an \<^verbatim>\<open>@\<close> after its first character, as for the identifiers that \<^verbatim>\<open>collect_owners\<close>
  builds from user names without \<^verbatim>\<open>@\<close>, this is the machine that strips a leading
  \<^verbatim>\<open>@\<close>.
\<close>

lemma check_if_lgtm_is_machine:
  "check_if_lgtm None comments = (False, False)
   \<and> check_if_lgtm (Some []) comments = (False, False)
   \<and> check_if_lgtm (Some owners) comments = evaluate_approval replace_at owners comments
   \<and> ((\<forall>u \<in> set owners. CHR ''@'' \<notin> set (tl u)) \<longrightarrow>
        check_if_lgtm (Some owners) comments
          = evaluate_approval strip_leading_at owners comments)
   \<and> ((\<forall>u \<in> set users. CHR ''@'' \<notin> set (fst u)) \<longrightarrow>
        check_if_lgtm (Some (map (\<lambda>(u, t). owner_identifier u t) users)) comments
          = evaluate_approval strip_leading_at (map (\<lambda>(u, t). owner_identifier u t) users)
              comments)"
proof (intro conjI impI)
  show "check_if_lgtm None comments = (False, False)"
    by (simp add: check_if_lgtm_def)
  show "check_if_lgtm (Some []) comments = (False, False)"
    by (simp add: check_if_lgtm_def)
  show "check_if_lgtm (Some owners) comments = evaluate_approval replace_at owners comments"
    by (rule check_if_lgtm_machine)
next
  assume "\<forall>u \<in> set owners. CHR ''@'' \<notin> set (tl u)"
  then have "replace_at ` set owners = strip_leading_at ` set owners"
    by (intro image_cong refl replace_at_leading) simp
  then show "check_if_lgtm (Some owners) comments
          = evaluate_approval strip_leading_at owners comments"
    by (simp add: check_if_lgtm_machine evaluate_approval_def)
next
  let ?os = "map (\<lambda>(u, t). owner_identifier u t) users"
  assume "\<forall>u \<in> set users. CHR ''@'' \<notin> set (fst u)"
  then have "\<And>w. w \<in> set ?os \<Longrightarrow> replace_at w = strip_leading_at w"
    by (auto simp: owner_identifier_normalised)
  then have "replace_at ` set ?os = strip_leading_at ` set ?os"
    by (intro image_cong refl)
  then show "check_if_lgtm (Some ?os) comments = evaluate_approval strip_leading_at ?os comments"
    by (simp add: check_if_lgtm_machine evaluate_approval_def)
qed

lemma example_evaluate:
  "evaluate_approval strip_leading_at [''@alice''] example_comments = (True, False)"
  by (simp add: evaluate_approval_def strip_leading_at_def example_comments_def)

lemma example_evaluate_alice:
  "evaluate_approval strip_leading_at [''alice'']
     [\<lparr>username = ''alice'', body = ''/lgtm'', created_at = 1::nat\<rparr>,
      \<lparr>username = ''alice'', body = ''/hold'', created_at = 2\<rparr>,
      \<lparr>username = ''alice'', body = ''/hold cancel'', created_at = 3\<rparr>] = (True, False)"
  by (simp add: evaluate_approval_def strip_leading_at_def)

lemma check_if_lgtm_sample:
  "check_if_lgtm (Some [''alice''])
     [\<lparr>username = ''alice'', body = ''/lgtm'', created_at = 1::nat\<rparr>,
      \<lparr>username = ''alice'', body = ''/hold'', created_at = 2\<rparr>,
      \<lparr>username = ''alice'', body = ''/hold cancel'', created_at = 3\<rparr>] = (True, False)
   \<and> check_if_lgtm (Some [''@alice'']) example_comments = (True, False)"
proof (intro conjI)
  let ?cs = "[\<lparr>username = ''alice'', body = ''/lgtm'', created_at = 1::nat\<rparr>,
      \<lparr>username = ''alice'', body = ''/hold'', created_at = 2\<rparr>,
      \<lparr>username = ''alice'', body = ''/hold cancel'', created_at = 3\<rparr>]"
  have "\<forall>u \<in> set [''alice'']. CHR ''@'' \<notin> set (tl u)" by simp
  with check_if_lgtm_is_machine [of ?cs "[''alice'']"]
  have "check_if_lgtm (Some [''alice'']) ?cs
          = evaluate_approval strip_leading_at [''alice''] ?cs"
    by blast
  then show "check_if_lgtm (Some [''alice'']) ?cs = (True, False)"
    by (simp only: example_evaluate_alice)
next
  have "\<forall>u \<in> set [''@alice'']. CHR ''@'' \<notin> set (tl u)" by simp
  with check_if_lgtm_is_machine [of example_comments "[''@alice'']"]
  have "check_if_lgtm (Some [''@alice'']) example_comments
          = evaluate_approval strip_leading_at [''@alice''] example_comments"
    by blast
  then show "check_if_lgtm (Some [''@alice'']) example_comments = (True, False)"
    by (simp only: example_evaluate)
qed

text \<open>
  C4. The code does not strip a leading \<^verbatim>\<open>@\<close> from an approver identifier: it removes
  every \<^verbatim>\<open>@\<close> in it, so for an identifier with an \<^verbatim>\<open>@\<close> inside it departs from the
  approval machine of the specification. With the approver \<^verbatim>\<open>a@b\<close> the machine skips the
  comment of the user \<^verbatim>\<open>ab\<close>, who is no approver, and the code takes it as an approval;
  and when \<^verbatim>\<open>collect_owners\<close> has put its \<^verbatim>\<open>@\<close> in front of the user name \<^verbatim>\<open>a@b\<close>, the
  machine hears the \<^verbatim>\<open>/lgtm\<close> of that user and the code does not.
\<close>

theorem check_if_lgtm_removes_every_at:
  "check_if_lgtm (Some [''a@b''])
     [\<lparr>username = ''ab'', body = ''/lgtm'', created_at = 1::nat\<rparr>] = (True, False)
   \<and> evaluate_approval strip_leading_at [''a@b'']
     [\<lparr>username = ''ab'', body = ''/lgtm'', created_at = 1::nat\<rparr>] = (False, False)
   \<and> check_if_lgtm (Some [owner_identifier ''a@b'' True])
     [\<lparr>username = ''a@b'', body = ''/lgtm'', created_at = 1::nat\<rparr>] = (False, False)
   \<and> evaluate_approval strip_leading_at [owner_identifier ''a@b'' True]
     [\<lparr>username = ''a@b'', body = ''/lgtm'', created_at = 1::nat\<rparr>] = (True, False)"
  by (simp add: check_if_lgtm_def evaluate_approval_def strip_leading_at_def replace_at_def
        owner_identifier_def lgtm_line_def Let_def)

section \<open>Properties of \<^verbatim>\<open>valid_diff\<close> on the store\<close>

lemma copies_aboveD:
  assumes "copies_above n f" "n \<le> length h" "copies_fresh n h" "memo_fresh n memo"
    "f v memo h = (r, h')"
  shows "take n h' = take n h" "length h \<le> length h'"
    "r = Inr (v', memo') \<Longrightarrow> copies_fresh n h' \<and> memo_fresh n memo' \<and> fresh n v'"
  using assms unfolding copies_above_def by blast+

lemma copy_items_above:
  assumes f: "copies_above n f"
    and "n \<le> length h" "copies_fresh n h" "memo_fresh n memo"
    and "copy_items f vs memo h = (r, h')"
  shows "take n h' = take n h \<and> length h \<le> length h'
         \<and> (\<forall>vs' memo'. r = Inr (vs', memo') \<longrightarrow>
               copies_fresh n h' \<and> memo_fresh n memo' \<and> list_all (fresh n) vs')"
  using assms(2-)
proof (induction vs arbitrary: memo h r h')
  case Nil
  then show ?case by auto
next
  case (Cons v vs)
  obtain r1 h1 where s1: "f v memo h = (r1, h1)" by (cases "f v memo h")
  note d = copies_aboveD [OF f Cons.prems(1-3) s1]
  show ?case
  proof (cases r1)
    case (Inl e)
    with Cons.prems(4) s1 d show ?thesis by auto
  next
    case (Inr p)
    obtain v' memo1 where p: "p = (v', memo1)" by (cases p)
    from d(3) [of v' memo1] Inr p
    have i1: "copies_fresh n h1" "memo_fresh n memo1" "fresh n v'" by auto
    have n1: "n \<le> length h1" using Cons.prems(1) d(2) by simp
    obtain r2 h2 where s2: "copy_items f vs memo1 h1 = (r2, h2)"
      by (cases "copy_items f vs memo1 h1")
    note ih = Cons.IH [OF n1 i1(1) i1(2) s2]
    show ?thesis
    proof (cases r2)
      case (Inl e)
      with Cons.prems(4) s1 s2 Inr p ih d show ?thesis by auto
    next
      case r2: (Inr q)
      obtain vs' memo2 where q: "q = (vs', memo2)" by (cases q)
      from Cons.prems(4) s1 s2 Inr p r2 q
      have "r = Inr (v' # vs', memo2)" "h' = h2" by auto
      with ih r2 q i1(3) d show ?thesis by auto
    qed
  qed
qed

lemma copies_fresh_append:
  "copies_fresh n h \<Longrightarrow> list_all (fresh n) (obj_values ob) \<Longrightarrow> copies_fresh n (h @ [ob])"
  by (auto simp: copies_fresh_def nth_append less_Suc_eq)

lemma copies_fresh_update:
  "copies_fresh n h \<Longrightarrow> list_all (fresh n) (obj_values ob) \<Longrightarrow> copies_fresh n (h[a := ob])"
  unfolding copies_fresh_def
proof (intro allI impI)
  fix b
  assume h: "\<forall>a. n \<le> a \<and> a < length h \<longrightarrow> list_all (fresh n) (obj_values (h ! a))"
    and ob: "list_all (fresh n) (obj_values ob)"
    and b: "n \<le> b \<and> b < length (h[a := ob])"
  show "list_all (fresh n) (obj_values (h[a := ob] ! b))"
  proof (cases "b = a")
    case True
    with b ob show ?thesis by simp
  next
    case False
    with b h show ?thesis by simp
  qed
qed

lemma take_update_above: "n \<le> a \<Longrightarrow> take n (h[a := ob]) = take n h"
  by simp

lemma memo_fresh_lookup: "memo_fresh n memo \<Longrightarrow> map_of memo a = Some y \<Longrightarrow> n \<le> y"
  by (auto simp: memo_fresh_def list_all_iff dest!: map_of_SomeD)

lemma deepcopy_above: "copies_above n (deepcopy fuel)"
proof (induction fuel)
  case 0
  show ?case
    unfolding copies_above_def
  proof (intro allI impI)
    fix v memo h r h'
    assume a: "n \<le> length h \<and> copies_fresh n h \<and> memo_fresh n memo
               \<and> deepcopy 0 v memo h = (r, h')"
    then show "take n h' = take n h \<and> length h \<le> length h'
          \<and> (\<forall>v' memo'. r = Inr (v', memo') \<longrightarrow>
                 copies_fresh n h' \<and> memo_fresh n memo' \<and> fresh n v')"
      by (cases v) (auto split: option.splits dest: memo_fresh_lookup)
  qed
next
  case (Suc fuel)
  show ?case
    unfolding copies_above_def
  proof (intro allI impI)
    fix v memo h r h'
    assume a: "n \<le> length h \<and> copies_fresh n h \<and> memo_fresh n memo
               \<and> deepcopy (Suc fuel) v memo h = (r, h')"
    then have n: "n \<le> length h" and cf: "copies_fresh n h" and mf: "memo_fresh n memo"
      and dc: "deepcopy (Suc fuel) v memo h = (r, h')" by auto
    let ?goal = "take n h' = take n h \<and> length h \<le> length h'
          \<and> (\<forall>v' memo'. r = Inr (v', memo') \<longrightarrow>
                 copies_fresh n h' \<and> memo_fresh n memo' \<and> fresh n v')"
    show ?goal
    proof (cases v)
      case (VRef a)
      show ?thesis
      proof (cases "map_of memo a")
        case (Some y)
        with dc VRef cf mf memo_fresh_lookup [OF mf Some] show ?thesis by auto
      next
        case None
        show ?thesis
        proof (cases "length h \<le> a")
          case True
          with dc VRef None show ?thesis by auto
        next
          case False
          let ?y = "length h"
          have mf1: "memo_fresh n ((a, ?y) # memo)" using mf n by (simp add: memo_fresh_def)
          show ?thesis
          proof (cases "h ! a")
            case (OList vs)
            let ?h0 = "h @ [OList []]"
            have n0: "n \<le> length ?h0" using n by simp
            have cf0: "copies_fresh n ?h0" using cf by (intro copies_fresh_append) simp_all
            obtain r1 h1 where ci: "copy_items (deepcopy fuel) vs ((a, ?y) # memo) ?h0 = (r1, h1)"
              by (cases "copy_items (deepcopy fuel) vs ((a, ?y) # memo) ?h0")
            from copy_items_above [OF Suc n0 cf0 mf1 ci]
            have t: "take n h1 = take n ?h0" and l: "length ?h0 \<le> length h1"
              and post: "\<And>vs' memo'. r1 = Inr (vs', memo') \<Longrightarrow>
                   copies_fresh n h1 \<and> memo_fresh n memo' \<and> list_all (fresh n) vs'"
              by blast+
            have t': "take n h1 = take n h" using t n by simp
            show ?thesis
            proof (cases r1)
              case (Inl e)
              with dc VRef None False OList ci t' l show ?thesis by (auto simp: Let_def)
            next
              case (Inr p)
              obtain vs' memo' where p: "p = (vs', memo')" by (cases p)
              from dc VRef None False OList ci Inr p
              have r: "r = Inr (VRef ?y, memo')" and h': "h' = h1[?y := OList vs']"
                by (auto simp: Let_def)
              from post [of vs' memo'] Inr p
              have "copies_fresh n h1" "memo_fresh n memo'" "list_all (fresh n) vs'" by auto
              then show ?thesis using r h' t' l n
                by (auto intro: copies_fresh_update)
            qed
          next
            case (ODict kvs)
            let ?h0 = "h @ [ODict []]"
            have n0: "n \<le> length ?h0" using n by simp
            have cf0: "copies_fresh n ?h0" using cf by (intro copies_fresh_append) simp_all
            obtain r1 h1 where
              ci: "copy_items (deepcopy fuel) (map snd kvs) ((a, ?y) # memo) ?h0 = (r1, h1)"
              by (cases "copy_items (deepcopy fuel) (map snd kvs) ((a, ?y) # memo) ?h0")
            from copy_items_above [OF Suc n0 cf0 mf1 ci]
            have t: "take n h1 = take n ?h0" and l: "length ?h0 \<le> length h1"
              and post: "\<And>vs' memo'. r1 = Inr (vs', memo') \<Longrightarrow>
                   copies_fresh n h1 \<and> memo_fresh n memo' \<and> list_all (fresh n) vs'"
              by blast+
            have t': "take n h1 = take n h" using t n by simp
            show ?thesis
            proof (cases r1)
              case (Inl e)
              with dc VRef None False ODict ci t' l show ?thesis by (auto simp: Let_def)
            next
              case (Inr p)
              obtain vs' memo' where p: "p = (vs', memo')" by (cases p)
              from dc VRef None False ODict ci Inr p
              have r: "r = Inr (VRef ?y, memo')"
                and h': "h' = h1[?y := ODict (zip (map fst kvs) vs')]"
                by (auto simp: Let_def)
              from post [of vs' memo'] Inr p
              have cf1: "copies_fresh n h1" and mf': "memo_fresh n memo'"
                and fr: "list_all (fresh n) vs'" by auto
              have "list_all (fresh n) (obj_values (ODict (zip (map fst kvs) vs')))"
                using fr by (auto simp: list_all_iff dest!: set_zip_rightD)
              then have "copies_fresh n h'" unfolding h' using cf1
                by (intro copies_fresh_update)
              then show ?thesis using r h' t' l n mf' by auto
            qed
          qed
        qed
      qed
    qed (use dc cf mf in auto)
  qed
qed


lemma dict_remove_fresh:
  "list_all (fresh n) (map snd kvs) \<Longrightarrow> list_all (fresh n) (map snd (dict_remove k kvs))"
  by (auto simp: dict_remove_def list_all_iff)

lemma copies_freshD:
  "copies_fresh n h \<Longrightarrow> n \<le> a \<Longrightarrow> a < length h \<Longrightarrow> list_all (fresh n) (obj_values (h ! a))"
  by (simp add: copies_fresh_def)

lemma pop_above:
  assumes "fresh n c" "copies_fresh n h" "pop c k h = (r, h')"
  shows "take n h' = take n h \<and> length h' = length h \<and> copies_fresh n h'"
proof (cases c)
  case (VRef a)
  with assms(1) have na: "n \<le> a" by simp
  show ?thesis
  proof (cases "length h \<le> a")
    case True
    with assms VRef show ?thesis by (simp add: pop_def)
  next
    case False
    then have al: "a < length h" by simp
    show ?thesis
    proof (cases "h ! a")
      case (OList vs)
      with assms VRef False show ?thesis by (simp add: pop_def)
    next
      case (ODict kvs)
      from copies_freshD [OF assms(2) na al] ODict
      have fr: "list_all (fresh n) (map snd kvs)" by simp
      show ?thesis
      proof (cases "map_of kvs k")
        case None
        with assms VRef False ODict show ?thesis by (simp add: pop_def)
      next
        case (Some v)
        with assms(3) VRef False ODict
        have h': "h' = h[a := ODict (dict_remove k kvs)]" by (simp add: pop_def)
        have "copies_fresh n h'" unfolding h'
          using assms(2) dict_remove_fresh [OF fr] by (intro copies_fresh_update) simp_all
        with h' na show ?thesis by simp
      qed
    qed
  qed
qed (use assms in \<open>auto simp: pop_def\<close>)

lemma pop_default_above:
  assumes "fresh n c" "copies_fresh n h" "pop_default c k h = (r, h')"
  shows "take n h' = take n h \<and> length h' = length h \<and> copies_fresh n h'"
proof (cases c)
  case (VRef a)
  with assms(1) have na: "n \<le> a" by simp
  show ?thesis
  proof (cases "length h \<le> a")
    case True
    with assms VRef show ?thesis by (simp add: pop_default_def)
  next
    case False
    then have al: "a < length h" by simp
    show ?thesis
    proof (cases "h ! a")
      case (OList vs)
      with assms VRef False show ?thesis by (simp add: pop_default_def)
    next
      case (ODict kvs)
      from copies_freshD [OF assms(2) na al] ODict
      have fr: "list_all (fresh n) (map snd kvs)" by simp
      from assms(3) VRef False ODict
      have h': "h' = h[a := ODict (dict_remove k kvs)]" by (simp add: pop_default_def)
      have "copies_fresh n h'" unfolding h'
        using assms(2) dict_remove_fresh [OF fr] by (intro copies_fresh_update) simp_all
      with h' na show ?thesis by simp
    qed
  qed
qed (use assms in \<open>auto simp: pop_default_def\<close>)

lemma getitem_fresh:
  assumes "fresh n c" "copies_fresh n h" "getitem c k h = Inr v"
  shows "fresh n v"
proof (cases c)
  case (VRef a)
  with assms(1) have na: "n \<le> a" by simp
  from assms(3) VRef have al: "a < length h"
    by (auto simp: getitem_def split: if_splits)
  from assms(3) VRef al obtain kvs where ob: "h ! a = ODict kvs" and v: "map_of kvs k = Some v"
    by (auto simp: getitem_def split: pyobj.splits option.splits)
  from copies_freshD [OF assms(2) na al] ob
  have "list_all (fresh n) (map snd kvs)" by simp
  moreover from v have "v \<in> snd ` set kvs" by (auto dest!: map_of_SomeD intro: rev_image_eqI)
  ultimately show ?thesis by (auto simp: list_all_iff)
qed (use assms in \<open>auto simp: getitem_def\<close>)

lemma strip_entry_above:
  assumes c: "fresh n c" and cf: "copies_fresh n h" and s: "strip_entry c h = (r, h')"
  shows "take n h' = take n h \<and> length h' = length h \<and> copies_fresh n h'"
proof -
  obtain r1 h1 where p1: "pop c ''ref'' h = (r1, h1)" by (cases "pop c ''ref'' h")
  note a1 = pop_above [OF c cf p1]
  show ?thesis
  proof (cases r1)
    case (Inl e)
    with s p1 a1 show ?thesis by (simp add: strip_entry_def)
  next
    case r1: (Inr u1)
    obtain r2 h2 where p2: "pop c ''parameters'' h1 = (r2, h2)"
      by (cases "pop c ''parameters'' h1")
    from a1 have cf1: "copies_fresh n h1" by simp
    note a2 = pop_above [OF c cf1 p2]
    show ?thesis
    proof (cases r2)
      case (Inl e)
      with s p1 r1 p2 a1 a2 show ?thesis by (simp add: strip_entry_def)
    next
      case r2: (Inr u2)
      from a2 have cf2: "copies_fresh n h2" by simp
      show ?thesis
      proof (cases "getitem c ''saas_file_definitions'' h2")
        case (Inl e)
        with s p1 r1 p2 r2 a1 a2 show ?thesis by (simp add: strip_entry_def)
      next
        case g: (Inr sfd)
        from getitem_fresh [OF c cf2 g] have fs: "fresh n sfd" .
        obtain r3 h3 where p3: "pop sfd ''use_channel_in_image_tag'' h2 = (r3, h3)"
          by (cases "pop sfd ''use_channel_in_image_tag'' h2")
        note a3 = pop_above [OF fs cf2 p3]
        show ?thesis
        proof (cases r3)
          case (Inl e)
          with s p1 r1 p2 r2 g p3 a1 a2 a3 show ?thesis by (simp add: strip_entry_def)
        next
          case r3: (Inr u3)
          from a3 have cf3: "copies_fresh n h3" by simp
          from s p1 r1 p2 r2 g p3 r3
          have p4: "pop_default c ''disable'' h3 = (r, h')" by (simp add: strip_entry_def)
          from pop_default_above [OF c cf3 p4] a1 a2 a3 show ?thesis by simp
        qed
      qed
    qed
  qed
qed

lemma strip_entries_above:
  assumes "list_all (fresh n) cs" "copies_fresh n h" "strip_entries cs h = (r, h')"
  shows "take n h' = take n h \<and> length h' = length h \<and> copies_fresh n h'"
  using assms
proof (induction cs arbitrary: h)
  case Nil
  then show ?case by simp
next
  case (Cons c cs)
  obtain r1 h1 where s1: "strip_entry c h = (r1, h1)" by (cases "strip_entry c h")
  from Cons.prems(1) have c: "fresh n c" and cs: "list_all (fresh n) cs" by simp_all
  note a1 = strip_entry_above [OF c Cons.prems(2) s1]
  show ?case
  proof (cases r1)
    case (Inl e)
    with Cons.prems(3) s1 a1 show ?thesis by simp
  next
    case (Inr u)
    with Cons.prems(3) s1 have "strip_entries cs h1 = (r, h')" by simp
    from Cons.IH [OF cs _ this] a1 show ?thesis by simp
  qed
qed

lemma iter_items_fresh:
  assumes "fresh n v" "copies_fresh n h" "iter_items v h = Inr cs"
  shows "list_all (fresh n) cs"
proof (cases v)
  case (VRef a)
  with assms(1) have na: "n \<le> a" by simp
  from assms(3) VRef have al: "a < length h"
    by (auto simp: iter_items_def split: if_splits)
  from copies_freshD [OF assms(2) na al] assms(3) VRef al show ?thesis
    by (auto simp: iter_items_def list_all_iff split: pyobj.splits)
qed (use assms in \<open>auto simp: iter_items_def list_all_iff\<close>)

lemma strip_state_above:
  assumes "fresh n v" "copies_fresh n h" "strip_state v h = (r, h')"
  shows "take n h' = take n h \<and> length h' = length h \<and> copies_fresh n h'"
proof (cases "iter_items v h")
  case (Inl e)
  with assms show ?thesis by (simp add: strip_state_def)
next
  case (Inr cs)
  with assms(3) have "strip_entries cs h = (r, h')" by (simp add: strip_state_def)
  from strip_entries_above [OF iter_items_fresh [OF assms(1,2) Inr] assms(2) this]
  show ?thesis .
qed

lemma deepcopy_top:
  assumes "n \<le> length h" "copies_fresh n h" "deepcopy fuel v [] h = (r, h')"
  shows "take n h' = take n h" "length h \<le> length h'"
    "r = Inr (v', memo') \<Longrightarrow> copies_fresh n h' \<and> fresh n v'"
proof -
  have mf: "memo_fresh n []" by (simp add: memo_fresh_def)
  note d = copies_aboveD [OF deepcopy_above assms(1,2) mf assms(3)]
  show "take n h' = take n h" "length h \<le> length h'" using d(1,2) by simp_all
  show "r = Inr (v', memo') \<Longrightarrow> copies_fresh n h' \<and> fresh n v'" using d(3) by simp
qed

lemma valid_diff_store_above:
  assumes "valid_diff_store fuel cur des h = (r, h')"
  shows "take (length h) h' = h \<and> length h \<le> length h'"
proof -
  let ?n = "length h"
  have cf: "copies_fresh ?n h" by (auto simp: copies_fresh_def)
  obtain r1 h1 where d1: "deepcopy fuel cur [] h = (r1, h1)" by (cases "deepcopy fuel cur [] h")
  note a1 = deepcopy_top [OF le_refl cf d1]
  show ?thesis
  proof (cases r1)
    case (Inl e)
    with assms d1 a1 show ?thesis by (simp add: valid_diff_store_def)
  next
    case r1: (Inr p1)
    obtain cc m1 where p1: "p1 = (cc, m1)" by (cases p1)
    from a1(3) [of cc m1] r1 p1 have cf1: "copies_fresh ?n h1" and fc: "fresh ?n cc" by auto
    obtain r2 h2 where s2: "strip_state cc h1 = (r2, h2)" by (cases "strip_state cc h1")
    note a2 = strip_state_above [OF fc cf1 s2]
    have t2: "take ?n h2 = h" "?n \<le> length h2" using a1 a2 by simp_all
    show ?thesis
    proof (cases r2)
      case (Inl e)
      with assms d1 r1 p1 s2 t2 show ?thesis by (simp add: valid_diff_store_def)
    next
      case r2: (Inr u2)
      from a2 have cf2: "copies_fresh ?n h2" by simp
      obtain r3 h3 where d3: "deepcopy fuel des [] h2 = (r3, h3)"
        by (cases "deepcopy fuel des [] h2")
      note a3 = deepcopy_top [OF t2(2) cf2 d3]
      have t3: "take ?n h3 = h" "?n \<le> length h3" using a3 t2 by simp_all
      show ?thesis
      proof (cases r3)
        case (Inl e)
        with assms d1 r1 p1 s2 r2 d3 t3 show ?thesis by (simp add: valid_diff_store_def)
      next
        case r3: (Inr p3)
        obtain dc m3 where p3: "p3 = (dc, m3)" by (cases p3)
        from a3(3) [of dc m3] r3 p3 have cf3: "copies_fresh ?n h3" and fd: "fresh ?n dc"
          by auto
        obtain r4 h4 where s4: "strip_state dc h3 = (r4, h4)" by (cases "strip_state dc h3")
        note a4 = strip_state_above [OF fd cf3 s4]
        have t4: "take ?n h4 = h" "?n \<le> length h4" using a4 t3 by simp_all
        from assms d1 r1 p1 s2 r2 d3 r3 p3 s4 have "h' = h4"
          by (cases r4) (simp_all add: valid_diff_store_def)
        with t4 show ?thesis by simp
      qed
    qed
  qed
qed


lemma unfold_value_frame:
  assumes t: "take (length h) h' = h" and c: "closed h"
  shows "val_in h v \<Longrightarrow> unfold_value fuel h' v = unfold_value fuel h v"
proof (induction fuel arbitrary: v)
  case 0
  then show ?case by (cases v) simp_all
next
  case (Suc fuel)
  show ?case
  proof (cases v)
    case (VRef a)
    with Suc.prems have al: "a < length h" by simp
    have "length (take (length h) h') = length h" by (simp only: t)
    then have len: "length h \<le> length h'" by simp
    from t al have same: "h' ! a = h ! a"
      by (metis nth_take)
    from c al have "list_all (val_in h) (obj_values (h ! a))"
      by (simp add: closed_def list_all_length)
    then have vals: "\<And>w. w \<in> set (obj_values (h ! a)) \<Longrightarrow> val_in h w"
      by (simp add: list_all_iff)
    have maps: "map (unfold_value fuel h') (obj_values (h ! a))
                  = map (unfold_value fuel h) (obj_values (h ! a))"
      by (rule map_cong [OF refl]) (use vals Suc.IH in blast)
    show ?thesis
    proof (cases "h ! a")
      case (OList vs)
      with maps have m: "map (unfold_value fuel h') vs = map (unfold_value fuel h) vs"
        by simp
      from VRef al len same OList show ?thesis by (simp add: m)
    next
      case (ODict kvs)
      with maps have m: "map (unfold_value fuel h') (map snd kvs)
                           = map (unfold_value fuel h) (map snd kvs)"
        by simp
      from VRef al len same ODict show ?thesis by (simp add: m del: map_map)
    qed
  qed simp_all
qed

text \<open>
  C10. \<^verbatim>\<open>valid_diff\<close> leaves its inputs unchanged: whatever the two arguments and the
  store are, and whether the call returns a boolean or raises, every object that was in
  the store before the call is the same after it (the call only adds objects, the deep
  copies, and pops from those). So in a closed store every value, the two states and
  every dict and list nested in them, stands for the same tree after the call as before.
\<close>

theorem valid_diff_store_leaves_inputs:
  "take (length h) (snd (valid_diff_store fuel current_state desired_state h)) = h
   \<and> length h \<le> length (snd (valid_diff_store fuel current_state desired_state h))
   \<and> (closed h \<longrightarrow> val_in h v \<longrightarrow>
        unfold_value k (snd (valid_diff_store fuel current_state desired_state h)) v
          = unfold_value k h v)"
proof -
  obtain r h' where v: "valid_diff_store fuel current_state desired_state h = (r, h')"
    by (cases "valid_diff_store fuel current_state desired_state h")
  from valid_diff_store_above [OF v]
  have t: "take (length h) h' = h" and l: "length h \<le> length h'" by simp_all
  from unfold_value_frame [OF t] t l v show ?thesis by simp
qed

lemma example_store_run:
  "fst (valid_diff_store 4 (VRef 4) (VRef 9) example_store) = Inr True"
  by code_simp

lemma example_store_closed: "closed example_store"
  by code_simp

lemma example_store_desired:
  "unfold_value 4 example_store (VRef 9)
   = Some (TList [TDict [(''saas_file_name'', TStr ''app''), (''namespace'', TStr ''app-prod''),
             (''ref'', TStr ''def''), (''parameters'', TDict [(''replicas'', TInt 3)]),
             (''saas_file_definitions'',
                TDict [(''managed_resource_types'', TList [TStr ''Deployment'']),
                       (''use_channel_in_image_tag'', TBool True)]),
             (''delete'', TNone), (''disable'', TBool True)]])"
  by code_simp

text \<open>
  Three more runs on the sample store. A desired entry in another namespace is not a valid
  diff. A state that holds one entry twice is copied to a list that holds one copy twice,
  and the second round of pops finds \<^verbatim>\<open>ref\<close> gone. With too little fuel the copy stops
  with the recursion error.
\<close>

lemma example_store_other_namespace:
  "fst (valid_diff_store 4 (VRef 4) (VRef 9)
          (example_store
             [8 := ODict [(''saas_file_name'', VStr ''app''), (''namespace'', VStr ''app-stage''),
                          (''ref'', VStr ''def''), (''parameters'', VRef 7),
                          (''saas_file_definitions'', VRef 6), (''delete'', VNone)]]))
   = Inr False"
  by code_simp

lemma example_store_shared_entry:
  "fst (valid_diff_store 4 (VRef 10) (VRef 9) (example_store @ [OList [VRef 3, VRef 3]]))
   = Inl (KeyError ''ref'')"
  by code_simp

lemma example_store_little_fuel:
  "fst (valid_diff_store 3 (VRef 4) (VRef 9) example_store) = Inl RecursionError"
  by code_simp

theorem valid_diff_store_leaves_inputs_witness:
  "fst (valid_diff_store 4 (VRef 4) (VRef 9) example_store) = Inr True
   \<and> take (length example_store) (snd (valid_diff_store 4 (VRef 4) (VRef 9) example_store))
       = example_store
   \<and> unfold_value 4 (snd (valid_diff_store 4 (VRef 4) (VRef 9) example_store)) (VRef 9)
       = Some (TList [TDict [(''saas_file_name'', TStr ''app''),
             (''namespace'', TStr ''app-prod''),
             (''ref'', TStr ''def''), (''parameters'', TDict [(''replicas'', TInt 3)]),
             (''saas_file_definitions'',
                TDict [(''managed_resource_types'', TList [TStr ''Deployment'']),
                       (''use_channel_in_image_tag'', TBool True)]),
             (''delete'', TNone), (''disable'', TBool True)]])"
proof -
  have v: "val_in example_store (VRef 9)" by (simp add: example_store_def)
  from valid_diff_store_leaves_inputs
         [of example_store 4 "VRef 4" "VRef 9" "VRef 9" 4] example_store_closed v
  have "take (length example_store)
          (snd (valid_diff_store 4 (VRef 4) (VRef 9) example_store)) = example_store"
    and "unfold_value 4 (snd (valid_diff_store 4 (VRef 4) (VRef 9) example_store)) (VRef 9)
          = unfold_value 4 example_store (VRef 9)"
    by blast+
  then show ?thesis by (simp only: example_store_run example_store_desired simp_thms)
qed

section \<open>Properties of the group reconciler\<close>

lemma act_calls_append [simp]: "act_calls (xs @ ys) = act_calls xs @ act_calls ys"
  by (simp add: act_calls_def)

lemma act_calls_simps [simp]:
  "act_calls [] = []"
  "act_calls (ActCall d # evs) = d # act_calls evs"
  "act_calls (OcmLogInfo d # evs) = act_calls evs"
  "act_calls (AddUserToGroup c g u # evs) = act_calls evs"
  "act_calls (DelUserFromGroup c g u # evs) = act_calls evs"
  by (simp_all add: act_calls_def)

lemma act_calls_act: "act_calls (act diff evs) = act_calls evs @ [diff]"
  by (simp add: act_def Let_def)

lemma act_on_diffs_dry_run:
  "act_calls (act_on_diffs True diffs evs) = act_calls evs"
  by (induction diffs arbitrary: evs) (simp_all add: Let_def)

lemma act_on_diffs_real_run:
  "act_calls (act_on_diffs False diffs evs)
     = act_calls evs
       @ filter (\<lambda>d. diff_action d \<noteq> ''create_group'' \<and> diff_action d \<noteq> ''delete_group'')
           diffs"
  by (induction diffs arbitrary: evs) (auto simp: Let_def act_calls_act)

lemma act_on_diffs_calls:
  "act_calls (act_on_diffs dry_run diffs evs)
     = act_calls evs
       @ (if dry_run then []
          else filter (\<lambda>d. diff_action d \<noteq> ''create_group'' \<and> diff_action d \<noteq> ''delete_group'')
                 diffs)"
  by (cases dry_run) (simp_all add: act_on_diffs_dry_run act_on_diffs_real_run)

text \<open>
  C9. In a run of the group reconciler, \<^verbatim>\<open>act\<close> is invoked exactly for the computed
  diffs whose action is neither \<^verbatim>\<open>create_group\<close> nor \<^verbatim>\<open>delete_group\<close>, in their
  order, and for none in a dry run or when the validation ends the run; so never with a
  group creation or deletion. The diffs are computed from the two states restricted to
  the group \<^verbatim>\<open>dedicated-admins\<close>: for every diff function that reports only groups of
  the memberships it is given, \<^verbatim>\<open>act\<close> is never invoked for another group. Of three
  computed diffs with the actions \<^verbatim>\<open>create_group\<close>, \<^verbatim>\<open>add_user_to_group\<close> and
  \<^verbatim>\<open>delete_group\<close> only the second is acted upon.
\<close>

theorem ocm_groups_acts_on_membership_only:
  "act_calls (snd (ocm_groups_run calculate_diff validate_diffs dry_run current_state
                     desired_state))
     = (if dry_run
           \<or> \<not> validate_diffs
                 (calculate_diff
                    (filter (\<lambda>s. m_group s = ''dedicated-admins'') current_state)
                    (filter (\<lambda>s. m_group s = ''dedicated-admins'') desired_state))
        then []
        else filter (\<lambda>d. diff_action d \<noteq> ''create_group'' \<and> diff_action d \<noteq> ''delete_group'')
               (calculate_diff
                  (filter (\<lambda>s. m_group s = ''dedicated-admins'') current_state)
                  (filter (\<lambda>s. m_group s = ''dedicated-admins'') desired_state)))
   \<and> (\<forall>d \<in> set (act_calls (snd (ocm_groups_run calculate_diff validate_diffs dry_run
                                   current_state desired_state))).
         diff_action d \<noteq> ''create_group'' \<and> diff_action d \<noteq> ''delete_group'')
   \<and> ((\<forall>cs ds. \<forall>d \<in> set (calculate_diff cs ds). diff_group d \<in> m_group ` (set cs \<union> set ds)) \<longrightarrow>
       (\<forall>d \<in> set (act_calls (snd (ocm_groups_run calculate_diff validate_diffs dry_run
                                    current_state desired_state))).
          diff_group d = ''dedicated-admins''))
   \<and> (diff_action c = ''create_group'' \<longrightarrow> diff_action a = ''add_user_to_group'' \<longrightarrow>
      diff_action x = ''delete_group'' \<longrightarrow>
        act_on_diffs False [c, a, x] []
          = [OcmLogInfo a, ActCall a,
             AddUserToGroup (diff_cluster a) (diff_group a) (diff_user a)])"
proof -
  let ?cs = "filter (\<lambda>s. m_group s = ''dedicated-admins'') current_state"
  let ?ds = "filter (\<lambda>s. m_group s = ''dedicated-admins'') desired_state"
  let ?diffs = "calculate_diff ?cs ?ds"
  let ?calls = "act_calls (snd (ocm_groups_run calculate_diff validate_diffs dry_run
                                  current_state desired_state))"
  have 1: "?calls
     = (if dry_run \<or> \<not> validate_diffs ?diffs then []
        else filter (\<lambda>d. diff_action d \<noteq> ''create_group'' \<and> diff_action d \<noteq> ''delete_group'')
               ?diffs)"
    by (simp add: ocm_groups_run_def Let_def act_on_diffs_calls)
  have sub: "set ?calls
               \<subseteq> {d \<in> set ?diffs. diff_action d \<noteq> ''create_group''
                                  \<and> diff_action d \<noteq> ''delete_group''}"
    unfolding 1 by auto
  have 2: "\<forall>d \<in> set ?calls. diff_action d \<noteq> ''create_group'' \<and> diff_action d \<noteq> ''delete_group''"
    using sub by blast
  have 3: "(\<forall>cs ds. \<forall>d \<in> set (calculate_diff cs ds). diff_group d \<in> m_group ` (set cs \<union> set ds))
            \<longrightarrow> (\<forall>d \<in> set ?calls. diff_group d = ''dedicated-admins'')"
  proof (intro impI ballI)
    fix d
    assume h: "\<forall>cs ds. \<forall>d \<in> set (calculate_diff cs ds).
                 diff_group d \<in> m_group ` (set cs \<union> set ds)"
      and d: "d \<in> set ?calls"
    from d sub have "d \<in> set ?diffs" by blast
    with h have "diff_group d \<in> m_group ` (set ?cs \<union> set ?ds)" by blast
    then show "diff_group d = ''dedicated-admins''" by auto
  qed
  have 4: "diff_action c = ''create_group'' \<longrightarrow> diff_action a = ''add_user_to_group'' \<longrightarrow>
      diff_action x = ''delete_group'' \<longrightarrow>
        act_on_diffs False [c, a, x] []
          = [OcmLogInfo a, ActCall a,
             AddUserToGroup (diff_cluster a) (diff_group a) (diff_user a)]"
    by (simp add: act_def Let_def)
  from 1 2 3 4 show ?thesis by (intro conjI)
qed

lemma example_calculate_diff_groups:
  "\<forall>cs ds. \<forall>d \<in> set (example_calculate_diff cs ds). diff_group d \<in> m_group ` (set cs \<union> set ds)"
  by (auto simp: example_calculate_diff_def)

theorem ocm_groups_acts_on_membership_only_witness:
  "act_calls (snd (ocm_groups_run example_calculate_diff (\<lambda>diffs. True) False
       [\<lparr>m_cluster = ''c1'', m_group = ''dedicated-admins'', m_user = ''bob''\<rparr>,
        \<lparr>m_cluster = ''c1'', m_group = ''developers'', m_user = ''carol''\<rparr>]
       [\<lparr>m_cluster = ''c1'', m_group = ''dedicated-admins'', m_user = ''alice''\<rparr>,
        \<lparr>m_cluster = ''c1'', m_group = ''testers'', m_user = ''dave''\<rparr>]))
   = [\<lparr>diff_action = ''add_user_to_group'', diff_cluster = ''c1'',
       diff_group = ''dedicated-admins'', diff_user = ''alice''\<rparr>,
      \<lparr>diff_action = ''del_user_from_group'', diff_cluster = ''c1'',
       diff_group = ''dedicated-admins'', diff_user = ''bob''\<rparr>]
   \<and> list_all (\<lambda>d. diff_group d = ''dedicated-admins'')
       (act_calls (snd (ocm_groups_run example_calculate_diff (\<lambda>diffs. True) False
          [\<lparr>m_cluster = ''c1'', m_group = ''dedicated-admins'', m_user = ''bob''\<rparr>,
           \<lparr>m_cluster = ''c1'', m_group = ''developers'', m_user = ''carol''\<rparr>]
          [\<lparr>m_cluster = ''c1'', m_group = ''dedicated-admins'', m_user = ''alice''\<rparr>,
           \<lparr>m_cluster = ''c1'', m_group = ''testers'', m_user = ''dave''\<rparr>])))"
proof -
  let ?cur = "[\<lparr>m_cluster = ''c1'', m_group = ''dedicated-admins'', m_user = ''bob''\<rparr>,
        \<lparr>m_cluster = ''c1'', m_group = ''developers'', m_user = ''carol''\<rparr>]"
  let ?des = "[\<lparr>m_cluster = ''c1'', m_group = ''dedicated-admins'', m_user = ''alice''\<rparr>,
        \<lparr>m_cluster = ''c1'', m_group = ''testers'', m_user = ''dave''\<rparr>]"
  let ?calls = "act_calls (snd (ocm_groups_run example_calculate_diff (\<lambda>diffs. True) False
                                  ?cur ?des))"
  note T = ocm_groups_acts_on_membership_only
             [where calculate_diff = example_calculate_diff and validate_diffs = "\<lambda>diffs. True"
                and dry_run = False and current_state = ?cur and desired_state = ?des]
  from T [THEN conjunct1] have "?calls
     = filter (\<lambda>d. diff_action d \<noteq> ''create_group'' \<and> diff_action d \<noteq> ''delete_group'')
         (example_calculate_diff
            (filter (\<lambda>s. m_group s = ''dedicated-admins'') ?cur)
            (filter (\<lambda>s. m_group s = ''dedicated-admins'') ?des))"
    by simp
  then have a: "?calls
   = [\<lparr>diff_action = ''add_user_to_group'', diff_cluster = ''c1'',
       diff_group = ''dedicated-admins'', diff_user = ''alice''\<rparr>,
      \<lparr>diff_action = ''del_user_from_group'', diff_cluster = ''c1'',
       diff_group = ''dedicated-admins'', diff_user = ''bob''\<rparr>]"
    by (simp add: example_calculate_diff_def)
  from T [THEN conjunct2, THEN conjunct2, THEN conjunct1, rule_format,
          OF example_calculate_diff_groups [rule_format]]
  have "\<forall>d \<in> set ?calls. diff_group d = ''dedicated-admins''" by blast
  then have b: "list_all (\<lambda>d. diff_group d = ''dedicated-admins'') ?calls"
    by (simp only: list_all_iff)
  show ?thesis by (intro conjI a b)
qed

end
